theory Spec2Isabelle
  imports Main "HOL-Library.Word" "HOL-Library.Signed_Division" "HOL-Library.Monad_Syntax"
begin

section \<open>C data model of patternMatching.c\<close>

text \<open>
  The matching engine of \<^verbatim>\<open>patternMatching.c\<close> works on \<^verbatim>\<open>char\<close> buffers whose
  length is passed separately, on \<^verbatim>\<open>int\<close> counters and on \<^verbatim>\<open>long long\<close> hash values.

  \<^item> A buffer is a list of bytes. A read at an index outside the list is undefined
    behaviour of the C program and is the value \<open>None\<close> here.
  \<^item> Plain \<^verbatim>\<open>char\<close> is taken as the signed 8-bit type it is under GCC and Clang on
    x86 and x86-64: the byte \<open>0xFF\<close> converts to the integer \<open>-1\<close>. Bytes below
    \<open>0x80\<close> (all of ASCII, hence the DNA letters) have the same value under either
    signedness.
  \<^item> \<^verbatim>\<open>int\<close> is 32 bits wide and \<^verbatim>\<open>long long\<close> 64 bits wide. Signed overflow is
    undefined behaviour in C: every arithmetic result is checked against the range of its
    type and is \<open>None\<close> when it does not fit.
  \<^item> The C operator \<^verbatim>\<open>%\<close> truncates towards zero: it is \<open>smod\<close>, not \<open>mod\<close>.
  \<^item> \<open>INT_MAX\<close>, \<open>INT_MIN\<close>, \<open>LLONG_MAX\<close> and \<open>LLONG_MIN\<close> are the macros of the C
    library header \<^verbatim>\<open><limits.h>\<close>, which the program includes, with their values for
    these widths.
\<close>

type_synonym cchar = "8 word"

definition char_val :: "cchar \<Rightarrow> int" where
  "char_val c = sint c"

definition INT_MAX :: int where
  "INT_MAX = 2147483647"

definition INT_MIN :: int where
  "INT_MIN = - 2147483648"

definition LLONG_MAX :: int where
  "LLONG_MAX = 9223372036854775807"

definition LLONG_MIN :: int where
  "LLONG_MIN = - 9223372036854775808"

text \<open>\<^verbatim>\<open>#define MOD INT_MAX\<close>\<close>

definition MOD :: int where
  "MOD = INT_MAX"

definition c_int :: "int \<Rightarrow> int option" where
  "c_int v = (if INT_MIN \<le> v \<and> v \<le> INT_MAX then Some v else None)"

definition c_llong :: "int \<Rightarrow> int option" where
  "c_llong v = (if LLONG_MIN \<le> v \<and> v \<le> LLONG_MAX then Some v else None)"

definition idx :: "cchar list \<Rightarrow> int \<Rightarrow> cchar option" where
  "idx buf i = (if 0 \<le> i \<and> i < int (length buf) then Some (buf ! nat i) else None)"

section \<open>bruteForceSearch\<close>

text \<open>
  The inner \<^verbatim>\<open>while (j < patternLen && text[i + j] == pattern[j]) j++;\<close>
  returns the final value of \<open>j\<close>.
\<close>

function bf_while :: "cchar list \<Rightarrow> cchar list \<Rightarrow> int \<Rightarrow> int \<Rightarrow> int \<Rightarrow> int option" where
  "bf_while text pattern i patternLen j =
     (if j < patternLen then
        do {
          k \<leftarrow> c_int (i + j);
          a \<leftarrow> idx text k;
          b \<leftarrow> idx pattern j;
          if char_val a = char_val b then
            do {
              j' \<leftarrow> c_int (j + 1);
              bf_while text pattern i patternLen j'
            }
          else Some j
        }
      else Some j)"
  by pat_completeness auto
termination
  by (relation "measure (\<lambda>(text, pattern, i, patternLen, j). nat (patternLen - j))")
     (auto simp: c_int_def split: if_splits)

declare bf_while.simps [simp del]

text \<open>
  The outer \<^verbatim>\<open>for (i = 0; i <= textLen - patternLen; i++)\<close> with the counter
  \<open>matches\<close>.
\<close>

function bf_for :: "cchar list \<Rightarrow> cchar list \<Rightarrow> int \<Rightarrow> int \<Rightarrow> int \<Rightarrow> int \<Rightarrow> int option" where
  "bf_for text pattern textLen patternLen i matches =
     do {
       lim \<leftarrow> c_int (textLen - patternLen);
       if i \<le> lim then
         do {
           j \<leftarrow> bf_while text pattern i patternLen 0;
           matches' \<leftarrow> (if j = patternLen then c_int (matches + 1) else Some matches);
           i' \<leftarrow> c_int (i + 1);
           bf_for text pattern textLen patternLen i' matches'
         }
       else Some matches
     }"
  by pat_completeness auto
termination
  by (relation "measure (\<lambda>(text, pattern, textLen, patternLen, i, matches).
                   nat (textLen - patternLen + 1 - i))")
     (auto simp: c_int_def split: if_splits)

declare bf_for.simps [simp del]

definition bruteForceSearch :: "cchar list \<Rightarrow> cchar list \<Rightarrow> int \<Rightarrow> int \<Rightarrow> int option" where
  "bruteForceSearch text pattern textLen patternLen =
     bf_for text pattern textLen patternLen 0 0"

section \<open>calculateHash\<close>

text \<open>
  \<^verbatim>\<open>for (i = len - 1; i >= 0; i--)\<close> with the accumulators \<open>hash\<close> and \<open>base\<close>.
\<close>

function ch_for :: "cchar list \<Rightarrow> int \<Rightarrow> int \<Rightarrow> int \<Rightarrow> int option" where
  "ch_for str i hash base =
     (if i \<ge> 0 then
        do {
          c \<leftarrow> idx str i;
          p \<leftarrow> c_llong (char_val c * base);
          s \<leftarrow> c_llong (hash + p smod MOD);
          base' \<leftarrow> (if i > 0 then
                      do { b \<leftarrow> c_llong (base * 2); Some (b smod MOD) }
                    else Some base);
          i' \<leftarrow> c_int (i - 1);
          ch_for str i' (s smod MOD) base'
        }
      else Some hash)"
  by pat_completeness auto
termination
  by (relation "measure (\<lambda>(str, i, hash, base). nat (i + 1))")
     (auto simp: c_int_def split: if_splits)

declare ch_for.simps [simp del]

definition calculateHash :: "cchar list \<Rightarrow> int \<Rightarrow> int option" where
  "calculateHash str len = do { i \<leftarrow> c_int (len - 1); ch_for str i 0 1 }"

section \<open>rehash\<close>

text \<open>
  \<^verbatim>\<open>for (i = 0; i < patternLen - 1; i++) powerOf2 = (powerOf2 * 2) % MOD;\<close>
\<close>

function rh_for :: "int \<Rightarrow> int \<Rightarrow> int \<Rightarrow> int option" where
  "rh_for patternLen i powerOf2 =
     do {
       lim \<leftarrow> c_int (patternLen - 1);
       if i < lim then
         do {
           p \<leftarrow> c_llong (powerOf2 * 2);
           i' \<leftarrow> c_int (i + 1);
           rh_for patternLen i' (p smod MOD)
         }
       else Some powerOf2
     }"
  by pat_completeness auto
termination
  by (relation "measure (\<lambda>(patternLen, i, powerOf2). nat (patternLen - 1 - i))")
     (auto simp: c_int_def split: if_splits)

declare rh_for.simps [simp del]

text \<open>
  The modular subtraction of \<^verbatim>\<open>rehash\<close>:
  \<^verbatim>\<open>newHash = oldHash - ((long long)oldChar * powerOf2) % MOD; if (newHash < 0) newHash += MOD;\<close>
\<close>

definition rh_sub :: "cchar \<Rightarrow> int \<Rightarrow> int \<Rightarrow> int option" where
  "rh_sub oldChar oldHash powerOf2 =
     do {
       p \<leftarrow> c_llong (char_val oldChar * powerOf2);
       newHash \<leftarrow> c_llong (oldHash - p smod MOD);
       if newHash < 0 then c_llong (newHash + MOD) else Some newHash
     }"

definition rehash :: "cchar \<Rightarrow> int \<Rightarrow> cchar \<Rightarrow> int \<Rightarrow> int option" where
  "rehash oldChar oldHash newChar patternLen =
     do {
       powerOf2 \<leftarrow> rh_for patternLen 0 1;
       newHash \<leftarrow> rh_sub oldChar oldHash powerOf2;
       d \<leftarrow> c_llong (newHash * 2);
       e \<leftarrow> c_llong (d + char_val newChar);
       Some (e smod MOD)
     }"

section \<open>verifyMatch\<close>

function vm_for :: "cchar list \<Rightarrow> cchar list \<Rightarrow> int \<Rightarrow> int \<Rightarrow> int \<Rightarrow> int option" where
  "vm_for text pattern pos patternLen i =
     (if i < patternLen then
        do {
          k \<leftarrow> c_int (pos + i);
          a \<leftarrow> idx text k;
          b \<leftarrow> idx pattern i;
          if char_val a \<noteq> char_val b then Some 0
          else
            do {
              i' \<leftarrow> c_int (i + 1);
              vm_for text pattern pos patternLen i'
            }
        }
      else Some 1)"
  by pat_completeness auto
termination
  by (relation "measure (\<lambda>(text, pattern, pos, patternLen, i). nat (patternLen - i))")
     (auto simp: c_int_def split: if_splits)

declare vm_for.simps [simp del]

definition verifyMatch :: "cchar list \<Rightarrow> cchar list \<Rightarrow> int \<Rightarrow> int \<Rightarrow> int option" where
  "verifyMatch text pattern pos patternLen = vm_for text pattern pos patternLen 0"

section \<open>karpRabinSearch\<close>

text \<open>
  The test \<^verbatim>\<open>patternHash == textHash && verifyMatch(...)\<close> followed by
  \<^verbatim>\<open>matches++\<close>; \<^verbatim>\<open>&&\<close> calls \<^verbatim>\<open>verifyMatch\<close> only when the hashes are equal.
\<close>

definition kr_check :: "cchar list \<Rightarrow> cchar list \<Rightarrow> int \<Rightarrow> int \<Rightarrow> int \<Rightarrow> int \<Rightarrow> int \<Rightarrow> int option" where
  "kr_check text pattern patternLen patternHash textHash pos matches =
     (if patternHash = textHash then
        do {
          v \<leftarrow> verifyMatch text pattern pos patternLen;
          if v \<noteq> 0 then c_int (matches + 1) else Some matches
        }
      else Some matches)"

text \<open>
  \<^verbatim>\<open>for (i = 1; i <= textLen - patternLen; i++)\<close> with \<open>textHash\<close> and \<open>matches\<close>.
\<close>

function kr_for :: "cchar list \<Rightarrow> cchar list \<Rightarrow> int \<Rightarrow> int \<Rightarrow> int \<Rightarrow> int \<Rightarrow> int \<Rightarrow> int \<Rightarrow> int option" where
  "kr_for text pattern textLen patternLen patternHash i textHash matches =
     do {
       lim \<leftarrow> c_int (textLen - patternLen);
       if i \<le> lim then
         do {
           i1 \<leftarrow> c_int (i - 1);
           a \<leftarrow> idx text i1;
           k \<leftarrow> c_int (i + patternLen);
           k1 \<leftarrow> c_int (k - 1);
           b \<leftarrow> idx text k1;
           textHash' \<leftarrow> rehash a textHash b patternLen;
           matches' \<leftarrow> kr_check text pattern patternLen patternHash textHash' i matches;
           i' \<leftarrow> c_int (i + 1);
           kr_for text pattern textLen patternLen patternHash i' textHash' matches'
         }
       else Some matches
     }"
  by pat_completeness auto
termination
  by (relation "measure (\<lambda>(text, pattern, textLen, patternLen, patternHash, i, textHash, matches).
                   nat (textLen - patternLen + 1 - i))")
     (auto simp: c_int_def split: if_splits)

declare kr_for.simps [simp del]

definition karpRabinSearch :: "cchar list \<Rightarrow> cchar list \<Rightarrow> int \<Rightarrow> int \<Rightarrow> int option" where
  "karpRabinSearch text pattern textLen patternLen =
     (if patternLen > textLen then Some 0
      else
        do {
          patternHash \<leftarrow> calculateHash pattern patternLen;
          textHash \<leftarrow> calculateHash text patternLen;
          matches \<leftarrow> kr_check text pattern patternLen patternHash textHash 0 0;
          kr_for text pattern textLen patternLen patternHash 1 textHash matches
        })"

section \<open>Notions used to state the properties\<close>

text \<open>
  \<open>match_at text pattern i\<close>: the slice \<open>text[i..i+P)\<close> equals the pattern.
  \<open>occurrences\<close> counts the offsets \<open>0 \<le> i \<le> T - P\<close> that match.
\<close>

definition match_at :: "cchar list \<Rightarrow> cchar list \<Rightarrow> nat \<Rightarrow> bool" where
  "match_at text pattern i = (take (length pattern) (drop i text) = pattern)"

definition occurrences :: "cchar list \<Rightarrow> cchar list \<Rightarrow> nat" where
  "occurrences text pattern =
     length (filter (match_at text pattern) [0 ..< Suc (length text) - length pattern])"

text \<open>The bytes of an ASCII string literal.\<close>

definition bytes :: "string \<Rightarrow> cchar list" where
  "bytes s = map of_char s"

text \<open>
  The base-2 positional value of the first \<open>L\<close> symbols of a buffer: the symbol at
  position \<open>k\<close> has weight \<open>2 ^ (L - 1 - k)\<close>.
\<close>

definition hash_sum :: "cchar list \<Rightarrow> nat \<Rightarrow> int" where
  "hash_sum str L = (\<Sum>k<L. char_val (str ! k) * 2 ^ (L - 1 - k))"

text \<open>
  Primality of a natural number, used to examine the modulus, and a trial division of
  \<open>n\<close> by the candidates \<open>d, d + 62, d + 124, \<dots>\<close> up to the square root of \<open>n\<close>.
\<close>

definition is_prime :: "nat \<Rightarrow> bool" where
  "is_prime p \<longleftrightarrow> 1 < p \<and> (\<forall>d. d dvd p \<longrightarrow> d = 1 \<or> d = p)"

function no_factor_from :: "int \<Rightarrow> int \<Rightarrow> bool" where
  "no_factor_from n d =
     (if d \<le> 0 \<or> n < d * d then True
      else if n mod d = 0 then False
      else no_factor_from n (d + 62))"
  by pat_completeness auto
termination
proof (relation "measure (\<lambda>(n, d). nat (n + 1 - d))", goal_cases)
  case 1
  show ?case by simp
next
  case (2 n d)
  then have "0 < d" "d * d \<le> n" by simp_all
  then have "d * 1 \<le> d * d" by (intro mult_left_mono) simp_all
  with \<open>d * d \<le> n\<close> show ?case by simp
qed

declare no_factor_from.simps [simp del]

section \<open>Basic facts about the C data model\<close>

lemma char_val_eq_iff: "char_val a = char_val b \<longleftrightarrow> a = b"
  by (simp add: char_val_def word_eq_iff_signed [symmetric])

lemma c_int_Some: "INT_MIN \<le> v \<Longrightarrow> v \<le> INT_MAX \<Longrightarrow> c_int v = Some v"
  by (simp add: c_int_def)

lemma match_at_iff:
  assumes "i + length pattern \<le> length text"
  shows "match_at text pattern i \<longleftrightarrow> (\<forall>k<length pattern. text ! (i + k) = pattern ! k)"
  using assms by (auto simp: match_at_def list_eq_iff_nth_eq)

lemma occurrences_card:
  "occurrences text pattern =
     card {i. i + length pattern \<le> length text \<and>
              (\<forall>k<length pattern. text ! (i + k) = pattern ! k)}"
proof -
  have "{i. i + length pattern \<le> length text \<and>
            (\<forall>k<length pattern. text ! (i + k) = pattern ! k)} =
        {i \<in> set [0 ..< Suc (length text) - length pattern]. match_at text pattern i}"
    by (auto simp: match_at_iff)
  moreover have "card {i \<in> set [0 ..< Suc (length text) - length pattern]. match_at text pattern i} =
        length (filter (match_at text pattern) [0 ..< Suc (length text) - length pattern])"
    by (metis distinct_filter distinct_upt distinct_card set_filter)
  ultimately show ?thesis by (simp add: occurrences_def)
qed

section \<open>The exact scanner\<close>

lemma bf_while_result:
  assumes "int i + int (length pattern) \<le> int (length text)"
    and "int (length text) \<le> INT_MAX"
    and "j \<le> length pattern"
  shows "\<exists>r. bf_while text pattern (int i) (int (length pattern)) (int j) = Some r \<and>
           (r = int (length pattern) \<longleftrightarrow>
              (\<forall>k. j \<le> k \<and> k < length pattern \<longrightarrow> text ! (i + k) = pattern ! k))"
  using assms(3)
proof (induction "length pattern - j" arbitrary: j)
  case 0
  then have "j = length pattern" by simp
  then show ?case by (subst bf_while.simps) auto
next
  case (Suc n)
  then have lt: "j < length pattern" by simp
  have k: "c_int (int i + int j) = Some (int i + int j)"
    using assms(1,2) lt by (intro c_int_Some) (simp_all add: INT_MIN_def)
  have a: "idx text (int i + int j) = Some (text ! (i + j))"
    using assms(1) lt by (simp add: idx_def nat_add_distrib)
  have b: "idx pattern (int j) = Some (pattern ! j)"
    using lt by (simp add: idx_def)
  have j1: "c_int (int j + 1) = Some (int (Suc j))"
    using assms(1,2) lt by (simp add: c_int_def INT_MIN_def)
  show ?case
  proof (cases "text ! (i + j) = pattern ! j")
    case True
    have ih: "\<exists>r. bf_while text pattern (int i) (int (length pattern)) (int (Suc j)) = Some r \<and>
           (r = int (length pattern) \<longleftrightarrow>
              (\<forall>k. Suc j \<le> k \<and> k < length pattern \<longrightarrow> text ! (i + k) = pattern ! k))"
      using Suc.hyps(1) [of "Suc j"] Suc.hyps(2) lt by simp
    have step: "bf_while text pattern (int i) (int (length pattern)) (int j) =
                bf_while text pattern (int i) (int (length pattern)) (int (Suc j))"
      using lt True by (subst bf_while.simps) (simp add: k a b j1 char_val_eq_iff)
    have "(\<forall>k. j \<le> k \<and> k < length pattern \<longrightarrow> text ! (i + k) = pattern ! k) \<longleftrightarrow>
          (\<forall>k. Suc j \<le> k \<and> k < length pattern \<longrightarrow> text ! (i + k) = pattern ! k)"
      using True by (metis Suc_leI le_neq_implies_less Suc_leD)
    with ih step show ?thesis by simp
  next
    case False
    have "bf_while text pattern (int i) (int (length pattern)) (int j) = Some (int j)"
      using lt False by (subst bf_while.simps) (simp add: k a b char_val_eq_iff)
    moreover have "\<not> (\<forall>k. j \<le> k \<and> k < length pattern \<longrightarrow> text ! (i + k) = pattern ! k)"
      using False lt by auto
    ultimately show ?thesis using lt by simp
  qed
qed

lemma bf_while_match:
  assumes "int i + int (length pattern) \<le> int (length text)"
    and "int (length text) \<le> INT_MAX"
  shows "\<exists>r. bf_while text pattern (int i) (int (length pattern)) 0 = Some r \<and>
           (r = int (length pattern) \<longleftrightarrow> match_at text pattern i)"
proof -
  have "i + length pattern \<le> length text"
    using assms(1) by linarith
  then show ?thesis
    using bf_while_result [OF assms, of 0] by (simp add: match_at_iff)
qed

lemma bf_for_result:
  assumes T: "int (length text) \<le> INT_MAX"
    and P: "int (length pattern) \<le> INT_MAX"
    and room: "length pattern = 0 \<longrightarrow> int (length text) < INT_MAX"
    and i: "i \<le> Suc (length text) - length pattern"
    and m: "0 \<le> m" "m \<le> int i"
  shows "bf_for text pattern (int (length text)) (int (length pattern)) (int i) m =
           Some (m + int (length (filter (match_at text pattern)
                                    [i ..< Suc (length text) - length pattern])))"
  using i m
proof (induction "Suc (length text) - length pattern - i" arbitrary: i m)
  case 0
  then have i_eq: "i = Suc (length text) - length pattern" by simp
  have lim: "c_int (int (length text) - int (length pattern)) =
               Some (int (length text) - int (length pattern))"
    using T P by (simp add: c_int_def INT_MIN_def INT_MAX_def)
  have "\<not> int i \<le> int (length text) - int (length pattern)"
    using i_eq by auto
  then show ?case
    using i_eq by (subst bf_for.simps) (simp add: lim)
next
  case (Suc n)
  then have lt: "i < Suc (length text) - length pattern" by simp
  then have fits: "int i + int (length pattern) \<le> int (length text)" by auto
  have lim: "c_int (int (length text) - int (length pattern)) =
               Some (int (length text) - int (length pattern))"
    using T P by (simp add: c_int_def INT_MIN_def INT_MAX_def)
  have le: "int i \<le> int (length text) - int (length pattern)"
    using fits by simp
  have i_bound: "int i + 1 \<le> INT_MAX"
  proof (cases "length pattern = 0")
    case True
    then show ?thesis using fits room by simp
  next
    case False
    then have "1 \<le> int (length pattern)" by (cases pattern) simp_all
    then show ?thesis using fits T by linarith
  qed
  obtain r where r: "bf_while text pattern (int i) (int (length pattern)) 0 = Some r"
    and r_iff: "r = int (length pattern) \<longleftrightarrow> match_at text pattern i"
    using bf_while_match [OF fits T] by blast
  define m' where "m' = (if match_at text pattern i then m + 1 else m)"
  have m'_range: "0 \<le> m'" "m' \<le> int (Suc i)"
    using Suc.prems by (simp_all add: m'_def)
  have cm: "(if r = int (length pattern) then c_int (m + 1) else Some m) = Some m'"
    using r_iff Suc.prems i_bound by (simp add: m'_def c_int_def INT_MIN_def)
  have ci: "c_int (int i + 1) = Some (int (Suc i))"
    using i_bound by (simp add: c_int_def INT_MIN_def)
  have ih: "bf_for text pattern (int (length text)) (int (length pattern)) (int (Suc i)) m' =
           Some (m' + int (length (filter (match_at text pattern)
                                    [Suc i ..< Suc (length text) - length pattern])))"
    using Suc.hyps(1) [of "Suc i" m'] Suc.hyps(2) lt m'_range by simp
  have step: "bf_for text pattern (int (length text)) (int (length pattern)) (int i) m =
              bf_for text pattern (int (length text)) (int (length pattern)) (int (Suc i)) m'"
    using le by (subst bf_for.simps) (simp add: lim r cm ci)
  have "[i ..< Suc (length text) - length pattern] =
        i # [Suc i ..< Suc (length text) - length pattern]"
    using lt by (simp add: upt_conv_Cons)
  then show ?case
    using step ih by (simp add: m'_def)
qed

lemma bruteForceSearch_occurrences:
  assumes "int (length text) \<le> INT_MAX"
    and "int (length pattern) \<le> INT_MAX"
    and "length pattern = 0 \<longrightarrow> int (length text) < INT_MAX"
  shows "bruteForceSearch text pattern (int (length text)) (int (length pattern)) =
           Some (int (occurrences text pattern))"
  using bf_for_result [OF assms, of 0 0] by (simp add: bruteForceSearch_def occurrences_def)

text \<open>
  C3. For a text of length \<open>T \<ge> 0\<close> and a pattern of length \<open>P \<ge> 1\<close> (both lengths
  being values of the C type \<^verbatim>\<open>int\<close>), \<open>bruteForceSearch\<close> returns, without undefined
  behaviour, the number of offsets \<open>i\<close> in \<open>[0, T - P]\<close> at which \<open>text[i..i+P)\<close>
  equals the pattern element-wise; overlapping occurrences are all counted.
\<close>

theorem bruteForceSearch_counts_occurrences:
  assumes "int (length text) \<le> INT_MAX"
    and "1 \<le> length pattern"
    and "int (length pattern) \<le> INT_MAX"
  shows "bruteForceSearch text pattern (int (length text)) (int (length pattern)) =
           Some (int (card {i. i + length pattern \<le> length text \<and>
                               (\<forall>k<length pattern. text ! (i + k) = pattern ! k)}))"
proof -
  have "length pattern = 0 \<longrightarrow> int (length text) < INT_MAX"
    using assms(2) by (cases pattern) simp_all
  from bruteForceSearch_occurrences [OF assms(1) assms(3) this]
  show ?thesis by (simp add: occurrences_card)
qed

theorem bruteForceSearch_counts_occurrences_witness:
  "int (length (bytes ''GATATAT'')) \<le> INT_MAX \<and> 1 \<le> length (bytes ''ATA'') \<and>
   int (length (bytes ''ATA'')) \<le> INT_MAX \<and>
   bruteForceSearch (bytes ''GATATAT'') (bytes ''ATA'') 7 3 = Some 2 \<and>
   card {i. i + length (bytes ''ATA'') \<le> length (bytes ''GATATAT'') \<and>
            (\<forall>k<length (bytes ''ATA''). bytes ''GATATAT'' ! (i + k) = bytes ''ATA'' ! k)} = 2"
proof -
  have h: "int (length (bytes ''GATATAT'')) \<le> INT_MAX" "1 \<le> length (bytes ''ATA'')"
    "int (length (bytes ''ATA'')) \<le> INT_MAX"
    by (simp_all add: bytes_def INT_MAX_def)
  have len: "int (length (bytes ''GATATAT'')) = 7" "int (length (bytes ''ATA'')) = 3"
    by (simp_all add: bytes_def)
  have run: "bruteForceSearch (bytes ''GATATAT'') (bytes ''ATA'') 7 3 = Some 2"
    by code_simp
  from bruteForceSearch_counts_occurrences [OF h] len run h show ?thesis
    by simp
qed

section \<open>The full hash computation\<close>


lemma smod_nonneg: "0 \<le> a \<Longrightarrow> 0 < b \<Longrightarrow> (a::int) smod b = a mod b"
  by (cases "a = 0") (simp_all add: smod_int_alt_def)

lemma smod_MOD_range: "- MOD < a smod MOD" "a smod MOD < MOD"
  using smod_int_range [where a = a and b = MOD] by (simp_all add: MOD_def INT_MAX_def)

lemma char_val_bounds: "- 128 \<le> char_val c" "char_val c \<le> 127"
  using sint_ge [of c] sint_lt [of c] by (simp_all add: char_val_def)

lemma hash_sum_0: "hash_sum str 0 = 0"
  by (simp add: hash_sum_def)

lemma hash_sum_Suc: "hash_sum str (Suc n) = 2 * hash_sum str n + char_val (str ! n)"
proof -
  have "(\<Sum>k<n. char_val (str ! k) * 2 ^ (n - k)) =
        (\<Sum>k<n. 2 * (char_val (str ! k) * 2 ^ (n - 1 - k)))"
  proof (rule sum.cong [OF refl])
    fix k assume "k \<in> {..<n}"
    then have "n - k = Suc (n - 1 - k)" by auto
    then show "char_val (str ! k) * 2 ^ (n - k) = 2 * (char_val (str ! k) * 2 ^ (n - 1 - k))"
      by simp
  qed
  then show ?thesis
    by (simp add: hash_sum_def sum_distrib_left)
qed

lemma hash_sum_shift:
  assumes "s \<noteq> []"
  shows "hash_sum s (Suc L) = char_val (s ! 0) * 2 ^ L + hash_sum (drop 1 s) L"
proof -
  have "1 \<le> length s"
    using assms by (cases s) simp_all
  then have "\<And>k. drop 1 s ! k = s ! Suc k"
    by simp
  then show ?thesis
    unfolding hash_sum_def by (subst sum.lessThan_Suc_shift) simp
qed

lemma hash_sum_cong:
  assumes "\<forall>k<L. s ! k = t ! k"
  shows "hash_sum s L = hash_sum t L"
  using assms by (simp add: hash_sum_def)

lemma c_llong_Some: "LLONG_MIN \<le> v \<Longrightarrow> v \<le> LLONG_MAX \<Longrightarrow> c_llong v = Some v"
  by (simp add: c_llong_def)

lemma char_mult_range:
  assumes "- MOD < b" "b < MOD"
  shows "- (128 * MOD) \<le> char_val c * b" "char_val c * b \<le> 128 * MOD"
proof -
  have "\<bar>char_val c * b\<bar> = \<bar>char_val c\<bar> * \<bar>b\<bar>"
    by (simp add: abs_mult)
  also have "\<dots> \<le> 128 * MOD"
    using char_val_bounds [of c] assms by (intro mult_mono) auto
  finally show "- (128 * MOD) \<le> char_val c * b" "char_val c * b \<le> 128 * MOD"
    by auto
qed

lemma c_llong_char_mult:
  assumes "- MOD < b" "b < MOD"
  shows "c_llong (char_val c * b) = Some (char_val c * b)"
  using char_mult_range [OF assms, of c]
  by (intro c_llong_Some) (simp_all add: MOD_def INT_MAX_def LLONG_MIN_def LLONG_MAX_def)

text \<open>One iteration of the loop of calculateHash, for any symbols.\<close>

lemma ch_for_step:
  assumes i: "i < length str" "int i \<le> INT_MAX"
    and h: "- MOD < hash" "hash < MOD"
    and b: "- MOD < base" "base < MOD"
  shows "ch_for str (int i) hash base =
           ch_for str (int i - 1) ((hash + (char_val (str ! i) * base) smod MOD) smod MOD)
                  (if 0 < i then (base * 2) smod MOD else base)"
proof -
  have c: "idx str (int i) = Some (str ! i)"
    using i by (simp add: idx_def)
  have p: "c_llong (char_val (str ! i) * base) = Some (char_val (str ! i) * base)"
    by (rule c_llong_char_mult [OF b])
  have s: "c_llong (hash + (char_val (str ! i) * base) smod MOD) =
             Some (hash + (char_val (str ! i) * base) smod MOD)"
    using h smod_MOD_range [of "char_val (str ! i) * base"]
    by (intro c_llong_Some) (simp_all add: MOD_def INT_MAX_def LLONG_MIN_def LLONG_MAX_def)
  have b2: "c_llong (base * 2) = Some (base * 2)"
    using b by (intro c_llong_Some) (simp_all add: MOD_def INT_MAX_def LLONG_MIN_def LLONG_MAX_def)
  have i': "c_int (int i - 1) = Some (int i - 1)"
    using i by (intro c_int_Some) (simp_all add: INT_MIN_def INT_MAX_def)
  show ?thesis
    by (subst ch_for.simps) (simp add: c p s b2 i')
qed

lemma ch_for_done: "ch_for str (- 1) hash base = Some hash"
  by (subst ch_for.simps) simp

lemma ch_for_total:
  assumes "i < length str" "int i \<le> INT_MAX"
    and "- MOD < hash" "hash < MOD" "- MOD < base" "base < MOD"
  shows "\<exists>h. ch_for str (int i) hash base = Some h \<and> - MOD < h \<and> h < MOD"
  using assms
proof (induction i arbitrary: hash base)
  case 0
  show ?case
    using ch_for_step [OF 0] smod_MOD_range by (simp add: ch_for_done)
next
  case (Suc i)
  have "\<exists>h. ch_for str (int i) ((hash + (char_val (str ! Suc i) * base) smod MOD) smod MOD)
                ((base * 2) smod MOD) = Some h \<and> - MOD < h \<and> h < MOD"
    using Suc.prems(1,2) by (intro Suc.IH smod_MOD_range) simp_all
  then show ?case
    using ch_for_step [OF Suc.prems] by simp
qed

lemma calculateHash_total:
  assumes "L \<le> length str" "int L \<le> INT_MAX"
  shows "\<exists>h. calculateHash str (int L) = Some h \<and> - MOD < h \<and> h < MOD"
proof (cases L)
  case 0
  then show ?thesis
    by (simp add: calculateHash_def c_int_def INT_MIN_def INT_MAX_def ch_for_done MOD_def)
next
  case (Suc i)
  have c: "c_int (int L - 1) = Some (int i)"
    using Suc assms(2) by (simp add: c_int_def INT_MIN_def)
  have "\<exists>h. ch_for str (int i) 0 1 = Some h \<and> - MOD < h \<and> h < MOD"
    using Suc assms by (intro ch_for_total) (simp_all add: MOD_def INT_MAX_def)
  then show ?thesis
    by (simp add: calculateHash_def c)
qed

text \<open>With symbols of non-negative value the loop computes the positional value mod MOD.\<close>

lemma ch_for_nonneg:
  assumes "i < length str" "int i \<le> INT_MAX"
    and "\<forall>k\<le>i. 0 \<le> char_val (str ! k)"
    and "0 \<le> hash" "hash < MOD" "0 \<le> base" "base < MOD"
  shows "ch_for str (int i) hash base = Some ((hash + base * hash_sum str (Suc i)) mod MOD)"
  using assms
proof (induction i arbitrary: hash base)
  case 0
  have M: "0 < MOD" by (simp add: MOD_def INT_MAX_def)
  have v: "0 \<le> char_val (str ! 0)" using 0 by simp
  have "ch_for str (int 0) hash base =
          Some ((hash + (char_val (str ! 0) * base) smod MOD) smod MOD)"
    using ch_for_step [of 0 str hash base] 0 by (simp add: ch_for_done)
  moreover have "(char_val (str ! 0) * base) smod MOD = (char_val (str ! 0) * base) mod MOD"
    using v 0 M by (intro smod_nonneg) simp_all
  moreover have "(hash + (char_val (str ! 0) * base) mod MOD) smod MOD =
                 (hash + (char_val (str ! 0) * base) mod MOD) mod MOD"
    using 0 M by (intro smod_nonneg) simp_all
  ultimately show ?case
    by (simp add: hash_sum_Suc hash_sum_0 mod_simps mult.commute)
next
  case (Suc i)
  have M: "0 < MOD" by (simp add: MOD_def INT_MAX_def)
  have v: "0 \<le> char_val (str ! Suc i)" using Suc.prems by simp
  let ?p = "char_val (str ! Suc i) * base"
  have e1: "?p smod MOD = ?p mod MOD"
    using v Suc.prems M by (intro smod_nonneg) simp_all
  have e2: "(hash + ?p mod MOD) smod MOD = (hash + ?p mod MOD) mod MOD"
    using Suc.prems M by (intro smod_nonneg) simp_all
  have e3: "(base * 2) smod MOD = (base * 2) mod MOD"
    using Suc.prems M by (intro smod_nonneg) simp_all
  have step: "ch_for str (int (Suc i)) hash base =
          ch_for str (int i) ((hash + ?p mod MOD) mod MOD) ((base * 2) mod MOD)"
    using ch_for_step [of "Suc i" str hash base] Suc.prems by (simp add: e1 e2 e3)
  have ih: "ch_for str (int i) ((hash + ?p mod MOD) mod MOD) ((base * 2) mod MOD) =
          Some (((hash + ?p mod MOD) mod MOD + ((base * 2) mod MOD) * hash_sum str (Suc i)) mod MOD)"
    using Suc.prems M by (intro Suc.IH) simp_all
  have A: "((hash + ?p mod MOD) mod MOD) mod MOD = (hash + ?p) mod MOD"
    by (simp add: mod_simps)
  have B: "(((base * 2) mod MOD) * hash_sum str (Suc i)) mod MOD =
           (base * 2 * hash_sum str (Suc i)) mod MOD"
    by (simp add: mod_mult_left_eq)
  have "((hash + ?p mod MOD) mod MOD + ((base * 2) mod MOD) * hash_sum str (Suc i)) mod MOD =
        (hash + ?p + base * 2 * hash_sum str (Suc i)) mod MOD"
    by (rule mod_add_cong [OF A B])
  also have "hash + ?p + base * 2 * hash_sum str (Suc i) =
             hash + base * hash_sum str (Suc (Suc i))"
    by (simp add: hash_sum_Suc [of str "Suc i"] algebra_simps)
  finally show ?case
    using step ih by simp
qed

lemma calculateHash_nonneg:
  assumes "L \<le> length str" "int L \<le> INT_MAX"
    and "\<forall>k<L. 0 \<le> char_val (str ! k)"
  shows "calculateHash str (int L) = Some (hash_sum str L mod MOD)"
proof (cases L)
  case 0
  then show ?thesis
    by (simp add: calculateHash_def c_int_def INT_MIN_def INT_MAX_def ch_for_done hash_sum_0)
next
  case (Suc i)
  have c: "c_int (int i) = Some (int i)"
    using Suc assms(2) by (simp add: c_int_def INT_MIN_def)
  have "ch_for str (int i) 0 1 = Some ((0 + 1 * hash_sum str (Suc i)) mod MOD)"
    using Suc assms by (intro ch_for_nonneg) (simp_all add: MOD_def INT_MAX_def)
  then show ?thesis
    using Suc by (simp add: calculateHash_def c)
qed

section \<open>The incremental update\<close>


lemma rh_for_result:
  assumes "INT_MIN < L" "L \<le> INT_MAX" "0 \<le> i" "i \<le> INT_MAX"
    and "0 \<le> p" "p < MOD"
  shows "rh_for L i p = Some ((p * 2 ^ nat (L - 1 - i)) mod MOD)"
  using assms(3-)
proof (induction "nat (L - 1 - i)" arbitrary: i p)
  case 0
  have lim: "c_int (L - 1) = Some (L - 1)"
    using assms(1,2) by (simp add: c_int_def INT_MIN_def INT_MAX_def)
  have "\<not> i < L - 1" using 0 by simp
  moreover have "nat (L - 1 - i) = 0" using 0 by simp
  ultimately show ?case
    using 0 by (subst rh_for.simps) (simp add: lim)
next
  case (Suc n)
  have M: "0 < MOD" by (simp add: MOD_def INT_MAX_def)
  have lim: "c_int (L - 1) = Some (L - 1)"
    using assms(1,2) by (simp add: c_int_def INT_MIN_def INT_MAX_def)
  have lt: "i < L - 1" using Suc.hyps(2) by simp
  have p2: "c_llong (p * 2) = Some (p * 2)"
    using Suc.prems by (simp add: c_llong_def MOD_def INT_MAX_def LLONG_MIN_def LLONG_MAX_def)
  have i1: "c_int (i + 1) = Some (i + 1)"
    using Suc.prems lt assms(2) by (simp add: c_int_def INT_MIN_def INT_MAX_def)
  have sm: "(p * 2) smod MOD = (p * 2) mod MOD"
    using Suc.prems M by (intro smod_nonneg) simp_all
  have step: "rh_for L i p = rh_for L (i + 1) ((p * 2) mod MOD)"
    using lt by (subst rh_for.simps) (simp add: lim p2 i1 sm)
  define k where "k = nat (L - 1 - (i + 1))"
  have ih: "rh_for L (i + 1) ((p * 2) mod MOD) = Some (((p * 2) mod MOD * 2 ^ k) mod MOD)"
    unfolding k_def using Suc.hyps(2) Suc.prems lt assms(2) M by (intro Suc.hyps(1)) simp_all
  have "nat (L - 1 - i) = Suc k"
    unfolding k_def using lt by simp
  then have pw: "p * 2 ^ nat (L - 1 - i) = p * 2 * 2 ^ k"
    by simp
  have "((p * 2) mod MOD * 2 ^ k) mod MOD = (p * 2 * 2 ^ k) mod MOD"
    by (rule mod_mult_left_eq)
  then show ?case
    using step ih by (simp only: pw)
qed

lemma rh_sub_nonneg:
  assumes "0 \<le> char_val oldChar" "0 \<le> oldHash" "oldHash < MOD" "0 \<le> pw" "pw < MOD"
  shows "rh_sub oldChar oldHash pw = Some ((oldHash - char_val oldChar * pw) mod MOD)"
proof -
  have M: "0 < MOD" by (simp add: MOD_def INT_MAX_def)
  let ?p = "char_val oldChar * pw"
  have p: "c_llong ?p = Some ?p"
    using assms by (intro c_llong_char_mult) simp_all
  have sm: "?p smod MOD = ?p mod MOD"
    using assms M by (intro smod_nonneg) simp_all
  have r: "0 \<le> ?p mod MOD" "?p mod MOD < MOD"
    using M by simp_all
  have d: "c_llong (oldHash - ?p mod MOD) = Some (oldHash - ?p mod MOD)"
    using assms r by (intro c_llong_Some) (simp_all add: MOD_def INT_MAX_def LLONG_MIN_def LLONG_MAX_def)
  have d': "c_llong (oldHash - ?p mod MOD + MOD) = Some (oldHash - ?p mod MOD + MOD)"
    using assms r by (intro c_llong_Some) (simp_all add: MOD_def INT_MAX_def LLONG_MIN_def LLONG_MAX_def)
  have eq: "(oldHash - ?p) mod MOD = (oldHash - ?p mod MOD) mod MOD"
    by (simp add: mod_simps)
  show ?thesis
  proof (cases "oldHash - ?p mod MOD < 0")
    case True
    have "(oldHash - ?p mod MOD + MOD) mod MOD = oldHash - ?p mod MOD + MOD"
      using True assms r by (intro mod_pos_pos_trivial; linarith)
    then have "(oldHash - ?p mod MOD) mod MOD = oldHash - ?p mod MOD + MOD"
      by simp
    then show ?thesis
      using True by (simp add: rh_sub_def p sm d d' eq)
  next
    case False
    have "(oldHash - ?p mod MOD) mod MOD = oldHash - ?p mod MOD"
      using False assms r by (intro mod_pos_pos_trivial; linarith)
    then show ?thesis
      using False by (simp add: rh_sub_def p sm d eq)
  qed
qed

lemma rehash_nonneg:
  assumes "INT_MIN < L" "L \<le> INT_MAX"
    and "0 \<le> char_val oldChar" "0 \<le> char_val newChar"
    and "0 \<le> oldHash" "oldHash < MOD"
  shows "rehash oldChar oldHash newChar L =
           Some ((2 * (oldHash - char_val oldChar * 2 ^ nat (L - 1)) + char_val newChar) mod MOD)"
proof -
  have M: "0 < MOD" by (simp add: MOD_def INT_MAX_def)
  let ?pw = "2 ^ nat (L - 1) mod MOD"
  let ?d = "(oldHash - char_val oldChar * ?pw) mod MOD"
  have pw: "rh_for L 0 1 = Some ?pw"
    using rh_for_result [OF assms(1,2), of 0 1] by (simp add: MOD_def INT_MAX_def)
  have sub: "rh_sub oldChar oldHash ?pw = Some ?d"
    using assms M by (intro rh_sub_nonneg) simp_all
  have dr: "0 \<le> ?d" "?d < MOD"
    using M by simp_all
  have d2: "c_llong (?d * 2) = Some (?d * 2)"
    using dr by (intro c_llong_Some) (simp_all add: MOD_def INT_MAX_def LLONG_MIN_def LLONG_MAX_def)
  have e: "c_llong (?d * 2 + char_val newChar) = Some (?d * 2 + char_val newChar)"
    using dr char_val_bounds [of newChar]
    by (intro c_llong_Some) (simp_all add: MOD_def INT_MAX_def LLONG_MIN_def LLONG_MAX_def)
  have sm: "(?d * 2 + char_val newChar) smod MOD = (?d * 2 + char_val newChar) mod MOD"
    using dr assms(4) M by (intro smod_nonneg) simp_all
  have "(char_val oldChar * ?pw) mod MOD = (char_val oldChar * 2 ^ nat (L - 1)) mod MOD"
    by (rule mod_mult_right_eq)
  from mod_diff_cong [OF refl this, of oldHash]
  have A: "?d mod MOD = (oldHash - char_val oldChar * 2 ^ nat (L - 1)) mod MOD"
    by simp
  have "(?d * 2) mod MOD = ((oldHash - char_val oldChar * 2 ^ nat (L - 1)) * 2) mod MOD"
    using mod_mult_cong [OF A refl] by simp
  from mod_add_cong [OF this refl, of "char_val newChar"]
  have "(?d * 2 + char_val newChar) mod MOD =
        (2 * (oldHash - char_val oldChar * 2 ^ nat (L - 1)) + char_val newChar) mod MOD"
    by (simp add: mult.commute)
  then show ?thesis
    by (simp add: rehash_def pw sub d2 e sm)
qed

lemma hash_sum_slide:
  assumes "L < length s"
  shows "hash_sum (drop 1 s) L =
           2 * hash_sum s L + char_val (s ! L) - char_val (s ! 0) * 2 ^ L"
proof -
  have "s \<noteq> []" using assms by auto
  from hash_sum_shift [OF this, of L] hash_sum_Suc [of s L]
  show ?thesis by simp
qed

lemma rolling_step:
  assumes L: "1 \<le> L" "int L \<le> INT_MAX" "L < length s"
    and nn: "\<forall>k\<le>L. 0 \<le> char_val (s ! k)"
  shows "rehash (s ! 0) (hash_sum s L mod MOD) (s ! L) (int L) =
           Some (hash_sum (drop 1 s) L mod MOD)"
proof -
  have M: "0 < MOD" by (simp add: MOD_def INT_MAX_def)
  have r: "rehash (s ! 0) (hash_sum s L mod MOD) (s ! L) (int L) =
           Some ((2 * (hash_sum s L mod MOD - char_val (s ! 0) * 2 ^ nat (int L - 1)) +
                  char_val (s ! L)) mod MOD)"
    using L nn M by (intro rehash_nonneg) (simp_all add: INT_MIN_def)
  obtain n where n: "L = Suc n"
    using L(1) by (cases L) simp_all
  have pw: "(2::int) * 2 ^ nat (int L - 1) = 2 ^ L"
    using n by simp
  have "(hash_sum s L mod MOD - char_val (s ! 0) * 2 ^ nat (int L - 1)) mod MOD =
        (hash_sum s L - char_val (s ! 0) * 2 ^ nat (int L - 1)) mod MOD"
    by (rule mod_diff_left_eq)
  from mod_mult_cong [OF refl this, of 2]
  have "(2 * (hash_sum s L mod MOD - char_val (s ! 0) * 2 ^ nat (int L - 1))) mod MOD =
        (2 * (hash_sum s L - char_val (s ! 0) * 2 ^ nat (int L - 1))) mod MOD" .
  from mod_add_cong [OF this refl, of "char_val (s ! L)"]
  have "(2 * (hash_sum s L mod MOD - char_val (s ! 0) * 2 ^ nat (int L - 1)) +
          char_val (s ! L)) mod MOD =
        (2 * (hash_sum s L - char_val (s ! 0) * 2 ^ nat (int L - 1)) + char_val (s ! L)) mod MOD" .
  also have "2 * (hash_sum s L - char_val (s ! 0) * 2 ^ nat (int L - 1)) + char_val (s ! L) =
             2 * hash_sum s L + char_val (s ! L) - char_val (s ! 0) * (2 * 2 ^ nat (int L - 1))"
    by (simp add: algebra_simps)
  also have "\<dots> = hash_sum (drop 1 s) L"
    unfolding pw using hash_sum_slide [OF L(3)] by simp
  finally show ?thesis
    using r by simp
qed

section \<open>The hashed scanner\<close>


lemma idx_nat: "n < length buf \<Longrightarrow> idx buf (int n) = Some (buf ! n)"
  by (simp add: idx_def)

lemma vm_for_result:
  assumes "int i + int (length pattern) \<le> int (length text)"
    and "int (length text) \<le> INT_MAX"
    and "j \<le> length pattern"
  shows "vm_for text pattern (int i) (int (length pattern)) (int j) =
           Some (if (\<forall>k. j \<le> k \<and> k < length pattern \<longrightarrow> text ! (i + k) = pattern ! k)
                 then 1 else 0)"
  using assms(3)
proof (induction "length pattern - j" arbitrary: j)
  case 0
  then have "j = length pattern" by simp
  then show ?case by (subst vm_for.simps) auto
next
  case (Suc n)
  then have lt: "j < length pattern" by simp
  have k: "c_int (int i + int j) = Some (int i + int j)"
    using assms(1,2) lt by (intro c_int_Some) (simp_all add: INT_MIN_def)
  have a: "idx text (int i + int j) = Some (text ! (i + j))"
    using assms(1) lt by (simp add: idx_def nat_add_distrib)
  have b: "idx pattern (int j) = Some (pattern ! j)"
    using lt by (simp add: idx_def)
  have j1: "c_int (int j + 1) = Some (int (Suc j))"
    using assms(1,2) lt by (simp add: c_int_def INT_MIN_def)
  show ?case
  proof (cases "text ! (i + j) = pattern ! j")
    case True
    have ih: "vm_for text pattern (int i) (int (length pattern)) (int (Suc j)) =
           Some (if (\<forall>k. Suc j \<le> k \<and> k < length pattern \<longrightarrow> text ! (i + k) = pattern ! k)
                 then 1 else 0)"
      using Suc.hyps(2) lt by (intro Suc.hyps(1)) simp_all
    have step: "vm_for text pattern (int i) (int (length pattern)) (int j) =
                vm_for text pattern (int i) (int (length pattern)) (int (Suc j))"
      using lt True by (subst vm_for.simps) (simp add: k a b j1 char_val_eq_iff)
    have "(\<forall>k. j \<le> k \<and> k < length pattern \<longrightarrow> text ! (i + k) = pattern ! k) \<longleftrightarrow>
          (\<forall>k. Suc j \<le> k \<and> k < length pattern \<longrightarrow> text ! (i + k) = pattern ! k)"
      using True by (metis Suc_leI le_neq_implies_less Suc_leD)
    with ih step show ?thesis by simp
  next
    case False
    have "vm_for text pattern (int i) (int (length pattern)) (int j) = Some 0"
      using lt False by (subst vm_for.simps) (simp add: k a b char_val_eq_iff)
    moreover have "\<not> (\<forall>k. j \<le> k \<and> k < length pattern \<longrightarrow> text ! (i + k) = pattern ! k)"
      using False lt by auto
    ultimately show ?thesis by simp
  qed
qed

lemma verifyMatch_result:
  assumes "int i + int (length pattern) \<le> int (length text)"
    and "int (length text) \<le> INT_MAX"
  shows "verifyMatch text pattern (int i) (int (length pattern)) =
           Some (if match_at text pattern i then 1 else 0)"
proof -
  have "i + length pattern \<le> length text"
    using assms(1) by linarith
  then show ?thesis
    using vm_for_result [OF assms, of 0] by (simp add: verifyMatch_def match_at_iff)
qed

lemma kr_check_result:
  assumes "int i + int (length pattern) \<le> int (length text)"
    and "int (length text) \<le> INT_MAX"
    and "match_at text pattern i \<Longrightarrow> patternHash = textHash"
    and "0 \<le> m" "m < INT_MAX"
  shows "kr_check text pattern (int (length pattern)) patternHash textHash (int i) m =
           Some (if match_at text pattern i then m + 1 else m)"
proof (cases "match_at text pattern i")
  case True
  then show ?thesis
    using assms(3-) verifyMatch_result [OF assms(1,2)]
    by (simp add: kr_check_def c_int_def INT_MIN_def)
next
  case False
  then show ?thesis
    using verifyMatch_result [OF assms(1,2)] by (simp add: kr_check_def)
qed

lemma kr_for_done:
  assumes "INT_MIN \<le> textLen - patternLen" "textLen - patternLen \<le> INT_MAX"
    and "textLen - patternLen < i"
  shows "kr_for text pattern textLen patternLen patternHash i textHash m = Some m"
  using assms by (subst kr_for.simps) (simp add: c_int_def)

lemma kr_for_result:
  assumes T: "int (length text) \<le> INT_MAX"
    and P: "1 \<le> length pattern"
    and nn: "\<forall>c\<in>set text. 0 \<le> char_val c"
    and ph: "\<And>j. j + length pattern \<le> length text \<Longrightarrow> match_at text pattern j \<Longrightarrow>
               patternHash = hash_sum (drop j text) (length pattern) mod MOD"
    and i: "1 \<le> i" "i \<le> Suc (length text) - length pattern"
    and m: "0 \<le> m" "m \<le> int i"
    and th: "textHash = hash_sum (drop (i - 1) text) (length pattern) mod MOD"
  shows "kr_for text pattern (int (length text)) (int (length pattern)) patternHash (int i) textHash m =
           Some (m + int (length (filter (match_at text pattern)
                                    [i ..< Suc (length text) - length pattern])))"
  using i m th
proof (induction "Suc (length text) - length pattern - i" arbitrary: i m textHash)
  case 0
  then have i_eq: "i = Suc (length text) - length pattern" by simp
  have "int (length text) - int (length pattern) < int i"
    using i_eq by auto
  moreover have "INT_MIN \<le> int (length text) - int (length pattern)"
    using "0.prems"(1,2) by (simp add: INT_MIN_def)
  moreover have "int (length text) - int (length pattern) \<le> INT_MAX"
    using T by simp
  ultimately show ?case
    using i_eq by (simp add: kr_for_done)
next
  case (Suc n)
  let ?P = "length pattern"
  let ?s = "drop (i - 1) text"
  have lt: "i < Suc (length text) - ?P" using Suc.hyps(2) by simp
  then have fits: "int i + int ?P \<le> int (length text)" by auto
  have fitsn: "i + ?P \<le> length text" using fits by linarith
  have lim: "c_int (int (length text) - int ?P) = Some (int (length text) - int ?P)"
    using T fits Suc.prems(1) by (simp add: c_int_def INT_MIN_def)
  have le: "int i \<le> int (length text) - int ?P"
    using fits by simp
  have i_bound: "int i + 1 \<le> INT_MAX"
    using fits T P by linarith
  define a0 where "a0 = text ! (i - 1)"
  define b0 where "b0 = text ! (i + ?P - 1)"
  have i1: "c_int (int i - 1) = Some (int i - 1)"
    using Suc.prems(1) i_bound by (simp add: c_int_def INT_MIN_def)
  have "int i - 1 = int (i - 1)"
    using Suc.prems(1) by simp
  moreover have "i - 1 < length text"
    using fitsn P by linarith
  ultimately have a: "idx text (int i - 1) = Some a0"
    unfolding a0_def by (simp only: idx_nat)
  have k: "c_int (int i + int ?P) = Some (int i + int ?P)"
    using fits T by (simp add: c_int_def INT_MIN_def)
  have k1: "c_int (int i + int ?P - 1) = Some (int i + int ?P - 1)"
    using fits T P by (simp add: c_int_def INT_MIN_def)
  have "int i + int ?P - 1 = int (i + ?P - 1)"
    using P by simp
  moreover have "i + ?P - 1 < length text"
    using fitsn P by linarith
  ultimately have b: "idx text (int i + int ?P - 1) = Some b0"
    unfolding b0_def by (simp only: idx_nat)
  have len_s: "?P < length ?s"
    using fitsn Suc.prems(1) by simp
  have s0: "?s ! 0 = text ! (i - 1)"
    using fitsn by simp
  have sP: "?s ! ?P = text ! (i + ?P - 1)"
    using fitsn Suc.prems(1) by simp
  have ds: "drop 1 ?s = drop i text"
    using Suc.prems(1) by simp
  have nns: "\<forall>k\<le>?P. 0 \<le> char_val (?s ! k)"
    using nn len_s by (metis in_set_conv_nth le_less_trans set_drop_subset subsetD)
  have "int ?P \<le> INT_MAX"
    using fits T by linarith
  from rolling_step [OF P this len_s nns]
  have rh: "rehash a0 textHash b0 (int ?P) = Some (hash_sum (drop i text) ?P mod MOD)"
    unfolding a0_def b0_def by (simp only: s0 sP ds Suc.prems(5))
  define m' where "m' = (if match_at text pattern i then m + 1 else m)"
  have m'_range: "0 \<le> m'" "m' \<le> int (Suc i)"
    using Suc.prems by (simp_all add: m'_def)
  have chk: "kr_check text pattern (int ?P) patternHash (hash_sum (drop i text) ?P mod MOD) (int i) m
               = Some m'"
    unfolding m'_def using Suc.prems i_bound ph [OF fitsn]
    by (intro kr_check_result [OF fits T]) simp_all
  have ci: "c_int (int i + 1) = Some (int (Suc i))"
    using i_bound by (simp add: c_int_def INT_MIN_def)
  have ih: "kr_for text pattern (int (length text)) (int ?P) patternHash (int (Suc i))
              (hash_sum (drop i text) ?P mod MOD) m' =
           Some (m' + int (length (filter (match_at text pattern)
                                    [Suc i ..< Suc (length text) - ?P])))"
    using Suc.hyps(2) lt m'_range by (intro Suc.hyps(1)) simp_all
  have step: "kr_for text pattern (int (length text)) (int ?P) patternHash (int i) textHash m =
              kr_for text pattern (int (length text)) (int ?P) patternHash (int (Suc i))
                (hash_sum (drop i text) ?P mod MOD) m'"
    using le by (subst kr_for.simps) (simp add: lim i1 a k k1 b rh chk ci)
  have "[i ..< Suc (length text) - ?P] = i # [Suc i ..< Suc (length text) - ?P]"
    using lt by (simp add: upt_conv_Cons)
  then show ?case
    using step ih by (simp add: m'_def)
qed

lemma karpRabinSearch_occurrences:
  assumes T: "int (length text) \<le> INT_MAX"
    and P: "1 \<le> length pattern" "int (length pattern) \<le> INT_MAX"
    and nn: "\<forall>c\<in>set text. 0 \<le> char_val c"
  shows "karpRabinSearch text pattern (int (length text)) (int (length pattern)) =
           Some (int (occurrences text pattern))"
proof (cases "length pattern > length text")
  case True
  then have "Suc (length text) - length pattern = 0" by simp
  then show ?thesis
    using True by (simp add: karpRabinSearch_def occurrences_def)
next
  case False
  let ?P = "length pattern"
  have le: "?P \<le> length text" using False by simp
  obtain ph where ph: "calculateHash pattern (int ?P) = Some ph"
    using calculateHash_total [of ?P pattern] P by auto
  have nnt: "\<forall>k<?P. 0 \<le> char_val (text ! k)"
    using nn le by simp
  have th: "calculateHash text (int ?P) = Some (hash_sum text ?P mod MOD)"
    using le P nnt by (intro calculateHash_nonneg) simp_all
  have ph_match: "ph = hash_sum (drop j text) ?P mod MOD"
    if j: "j + ?P \<le> length text" and mt: "match_at text pattern j" for j
  proof -
    have eq: "\<forall>k<?P. text ! (j + k) = pattern ! k"
      using mt j by (simp add: match_at_iff)
    have "\<forall>k<?P. 0 \<le> char_val (pattern ! k)"
    proof (intro allI impI)
      fix k assume k: "k < ?P"
      then have "text ! (j + k) \<in> set text" using j by simp
      then show "0 \<le> char_val (pattern ! k)" using nn eq k by metis
    qed
    then have "calculateHash pattern (int ?P) = Some (hash_sum pattern ?P mod MOD)"
      using P by (intro calculateHash_nonneg) simp_all
    moreover have "hash_sum pattern ?P = hash_sum (drop j text) ?P"
      using eq j by (intro hash_sum_cong) simp
    ultimately show ?thesis using ph by simp
  qed
  have fits0: "int 0 + int ?P \<le> int (length text)" using le by simp
  define m0 :: int where "m0 = (if match_at text pattern 0 then 1 else 0)"
  have "match_at text pattern 0 \<Longrightarrow> ph = hash_sum text ?P mod MOD"
    using ph_match [of 0] le by simp
  then have chk: "kr_check text pattern (int ?P) ph (hash_sum text ?P mod MOD) 0 0 = Some m0"
    using kr_check_result [OF fits0 T, of ph "hash_sum text ?P mod MOD" 0]
    by (simp add: m0_def INT_MAX_def)
  have loop: "kr_for text pattern (int (length text)) (int ?P) ph (int 1)
                (hash_sum text ?P mod MOD) m0 =
              Some (m0 + int (length (filter (match_at text pattern)
                                        [1 ..< Suc (length text) - ?P])))"
    using le by (intro kr_for_result [OF T P(1) nn ph_match]) (simp_all add: m0_def)
  have "[0 ..< Suc (length text) - ?P] = 0 # [1 ..< Suc (length text) - ?P]"
    using le by (simp add: upt_conv_Cons)
  then have "int (occurrences text pattern) =
             m0 + int (length (filter (match_at text pattern) [1 ..< Suc (length text) - ?P]))"
    by (simp add: occurrences_def m0_def)
  then show ?thesis
    using False loop by (simp add: karpRabinSearch_def ph th chk)
qed

lemma occurrences_same_length:
  assumes "length pattern = length text"
  shows "occurrences text pattern = (if text = pattern then 1 else 0)"
  using assms by (simp add: occurrences_def match_at_def)

lemma bf_for_empty_pattern:
  assumes T: "int (length text) < INT_MAX"
    and i: "i \<le> Suc (length text)"
    and m: "0 \<le> m" "m \<le> int i"
  shows "bf_for text pattern (int (length text)) 0 (int i) m =
           Some (m + int (Suc (length text) - i))"
  using i m
proof (induction "Suc (length text) - i" arbitrary: i m)
  case 0
  then have "i = Suc (length text)" by simp
  then show ?case
    using T by (subst bf_for.simps) (simp add: c_int_def INT_MIN_def)
next
  case (Suc n)
  then have lt: "i \<le> length text" by simp
  have lim: "c_int (int (length text) - 0) = Some (int (length text))"
    using T by (simp add: c_int_def INT_MIN_def)
  have w: "bf_while text pattern (int i) 0 0 = Some 0"
    by (subst bf_while.simps) simp
  have cm: "c_int (m + 1) = Some (m + 1)"
    using Suc.prems lt T by (simp add: c_int_def INT_MIN_def)
  have ci: "c_int (int i + 1) = Some (int (Suc i))"
    using lt T by (simp add: c_int_def INT_MIN_def)
  have ih: "bf_for text pattern (int (length text)) 0 (int (Suc i)) (m + 1) =
              Some (m + 1 + int (Suc (length text) - Suc i))"
    using Suc.hyps(2) Suc.prems lt by (intro Suc.hyps(1)) simp_all
  have "bf_for text pattern (int (length text)) 0 (int i) m =
        bf_for text pattern (int (length text)) 0 (int (Suc i)) (m + 1)"
    using lt lim by (subst bf_for.simps) (simp add: w cm ci)
  then show ?case
    using ih lt by (simp add: Suc_diff_le)
qed

lemma karpRabinSearch_same_length:
  assumes T: "int (length text) \<le> INT_MAX"
    and len: "length pattern = length text"
  shows "karpRabinSearch text pattern (int (length text)) (int (length pattern)) =
           Some (if text = pattern then 1 else 0)"
proof -
  let ?P = "length pattern"
  obtain ph where ph: "calculateHash pattern (int ?P) = Some ph"
    using calculateHash_total [of ?P pattern] T len by auto
  obtain th where th: "calculateHash text (int ?P) = Some th"
    using calculateHash_total [of ?P "text"] T len by auto
  have m: "match_at text pattern 0 \<longleftrightarrow> text = pattern"
    using len by (simp add: match_at_def)
  have fits0: "int 0 + int ?P \<le> int (length text)" using len by simp
  have "match_at text pattern 0 \<Longrightarrow> ph = th"
    using m ph th by simp
  then have chk: "kr_check text pattern (int ?P) ph th 0 0 = Some (if text = pattern then 1 else 0)"
    using kr_check_result [OF fits0 T, of ph th 0] m
    by (simp add: INT_MAX_def)
  have kr: "kr_for text pattern (int (length text)) (int ?P) ph 1 th m' = Some m'" for m'
    using len by (intro kr_for_done) (simp_all add: INT_MIN_def INT_MAX_def)
  have "\<not> int ?P > int (length text)"
    using len by simp
  then show ?thesis
    unfolding karpRabinSearch_def by (simp only: if_False ph th chk kr Option.bind.bind_lunit)
qed

lemma rh_sub_range:
  assumes "0 \<le> oldHash" "oldHash < MOD" "0 \<le> pw" "pw < MOD"
  shows "\<exists>d. rh_sub oldChar oldHash pw = Some d \<and> 0 \<le> d \<and> d < 2 * MOD"
proof -
  let ?p = "char_val oldChar * pw"
  have p: "c_llong ?p = Some ?p"
    using assms by (intro c_llong_char_mult) simp_all
  note q = smod_MOD_range [of ?p]
  have x: "c_llong (oldHash - ?p smod MOD) = Some (oldHash - ?p smod MOD)"
    using assms q
    by (intro c_llong_Some) (simp_all add: MOD_def INT_MAX_def LLONG_MIN_def LLONG_MAX_def)
  have x': "c_llong (oldHash - ?p smod MOD + MOD) = Some (oldHash - ?p smod MOD + MOD)"
    using assms q
    by (intro c_llong_Some) (simp_all add: MOD_def INT_MAX_def LLONG_MIN_def LLONG_MAX_def)
  show ?thesis
  proof (cases "oldHash - ?p smod MOD < 0")
    case True
    have "0 \<le> oldHash - ?p smod MOD + MOD" "oldHash - ?p smod MOD + MOD < 2 * MOD"
      using True assms q by linarith+
    then show ?thesis
      using True by (simp add: rh_sub_def p x x')
  next
    case False
    have "oldHash - ?p smod MOD < 2 * MOD"
      using assms q by linarith
    then show ?thesis
      using False by (simp add: rh_sub_def p x)
  qed
qed

lemma rehash_range:
  assumes "INT_MIN < L" "L \<le> INT_MAX"
    and "0 \<le> char_val newChar"
    and "0 \<le> oldHash" "oldHash < MOD"
  shows "\<exists>pw d h. rh_for L 0 1 = Some pw \<and> rh_sub oldChar oldHash pw = Some d \<and> 0 \<le> d \<and>
           rehash oldChar oldHash newChar L = Some h \<and> 0 \<le> h \<and> h < MOD"
proof -
  have M: "0 < MOD" by (simp add: MOD_def INT_MAX_def)
  let ?pw = "2 ^ nat (L - 1) mod MOD"
  have pw: "rh_for L 0 1 = Some ?pw"
    using rh_for_result [OF assms(1,2), of 0 1] by (simp add: MOD_def INT_MAX_def)
  have "0 \<le> ?pw" "?pw < MOD"
    using M by simp_all
  from rh_sub_range [OF assms(4,5) this]
  obtain d where d: "rh_sub oldChar oldHash ?pw = Some d" "0 \<le> d" "d < 2 * MOD"
    by blast
  have d2: "c_llong (d * 2) = Some (d * 2)"
    using d(2,3) by (intro c_llong_Some) (simp_all add: MOD_def INT_MAX_def LLONG_MIN_def LLONG_MAX_def)
  have e: "c_llong (d * 2 + char_val newChar) = Some (d * 2 + char_val newChar)"
    using d(2,3) char_val_bounds [of newChar]
    by (intro c_llong_Some) (simp_all add: MOD_def INT_MAX_def LLONG_MIN_def LLONG_MAX_def)
  have sm: "(d * 2 + char_val newChar) smod MOD = (d * 2 + char_val newChar) mod MOD"
    using d(2) assms(3) M by (intro smod_nonneg) simp_all
  have "rehash oldChar oldHash newChar L = Some ((d * 2 + char_val newChar) mod MOD)"
    by (simp add: rehash_def pw d(1) d2 e sm)
  moreover have "0 \<le> (d * 2 + char_val newChar) mod MOD" "(d * 2 + char_val newChar) mod MOD < MOD"
    using M by simp_all
  ultimately show ?thesis
    using pw d by blast
qed

section \<open>The properties of the specification\<close>

text \<open>
  C1 (as stated, refuted). The claim lets the symbols be arbitrary bytes. A byte from
  \<open>0x80\<close> on is a negative \<^verbatim>\<open>char\<close>; \<^verbatim>\<open>calculateHash\<close> then leaves a negative
  remainder where \<^verbatim>\<open>rehash\<close> adds \<open>MOD\<close> back, so the rolled hash of a window differs
  from the hash of an equal pattern. On the text \<open>01 FF 01\<close> and the pattern \<open>FF 01\<close>
  the exact scanner counts the occurrence at offset 1 and the hashed scanner counts none.
\<close>

theorem scanners_disagree_on_high_byte:
  "bruteForceSearch [1, 255, 1] [255, 1] 3 2 = Some 1 \<and>
   karpRabinSearch [1, 255, 1] [255, 1] 3 2 = Some 0"
  by code_simp

text \<open>
  C1 (amended). For every text of length \<open>T \<ge> 0\<close> whose symbols are bytes below
  \<open>0x80\<close> (non-negative as \<^verbatim>\<open>char\<close>; this covers the DNA alphabet) and every pattern
  of length \<open>P \<ge> 1\<close>, \<open>bruteForceSearch\<close> and \<open>karpRabinSearch\<close> return the same
  match count, namely the number of occurrences.
\<close>

theorem scanners_agree:
  assumes "int (length text) \<le> INT_MAX"
    and "1 \<le> length pattern"
    and "int (length pattern) \<le> INT_MAX"
    and "\<forall>c\<in>set text. 0 \<le> char_val c"
  shows "\<exists>n. bruteForceSearch text pattern (int (length text)) (int (length pattern)) = Some n \<and>
              karpRabinSearch text pattern (int (length text)) (int (length pattern)) = Some n"
proof -
  have "length pattern = 0 \<longrightarrow> int (length text) < INT_MAX"
    using assms(2) by (cases pattern) simp_all
  from bruteForceSearch_occurrences [OF assms(1) assms(3) this]
    karpRabinSearch_occurrences [OF assms]
  show ?thesis by simp
qed

theorem scanners_agree_witness:
  "int (length (bytes ''ATCGATCGATCG'')) \<le> INT_MAX \<and> 1 \<le> length (bytes ''ATCG'') \<and>
   int (length (bytes ''ATCG'')) \<le> INT_MAX \<and>
   list_all (\<lambda>c. 0 \<le> char_val c) (bytes ''ATCGATCGATCG'') \<and>
   (\<exists>n. bruteForceSearch (bytes ''ATCGATCGATCG'') (bytes ''ATCG'') 12 4 = Some n \<and>
        karpRabinSearch (bytes ''ATCGATCGATCG'') (bytes ''ATCG'') 12 4 = Some n)"
proof -
  have h: "int (length (bytes ''ATCGATCGATCG'')) \<le> INT_MAX" "1 \<le> length (bytes ''ATCG'')"
    "int (length (bytes ''ATCG'')) \<le> INT_MAX"
    by (simp_all add: bytes_def INT_MAX_def)
  have nn: "\<forall>c\<in>set (bytes ''ATCGATCGATCG''). 0 \<le> char_val c"
    by code_simp
  have len: "int (length (bytes ''ATCGATCGATCG'')) = 12" "int (length (bytes ''ATCG'')) = 4"
    by (simp_all add: bytes_def)
  from scanners_agree [OF h nn] h nn show ?thesis
    by (simp only: len simp_thms list_all_iff)
qed

text \<open>
  C2 (as stated, refuted). On the buffer \<open>01 FF 01\<close> with \<open>L = 2\<close> the hash of the
  first window is 1, the recomputed hash of the shifted window is \<open>-1\<close>, and the
  incremental update yields \<open>MOD - 1\<close>.
\<close>

theorem rehash_differs_on_high_byte:
  "calculateHash [1, 255, 1] 2 = Some 1 \<and>
   calculateHash (drop 1 [1, 255, 1]) 2 = Some (- 1) \<and>
   rehash ([1, 255, 1] ! 0) 1 ([1, 255, 1] ! 2) 2 = Some 2147483646"
  by code_simp

text \<open>
  C2 (amended). For every window length \<open>L \<ge> 1\<close> and every buffer \<open>s\<close> of length
  \<open>L + 1\<close> whose symbols are bytes below \<open>0x80\<close>, \<open>calculateHash(s + 1, L)\<close> equals
  \<open>rehash(s[0], calculateHash(s, L), s[L], L)\<close>.
\<close>

theorem rehash_matches_recomputation:
  assumes "1 \<le> L"
    and "int L \<le> INT_MAX"
    and "length s = Suc L"
    and "\<forall>c\<in>set s. 0 \<le> char_val c"
  shows "\<exists>h h'. calculateHash s (int L) = Some h \<and>
           calculateHash (drop 1 s) (int L) = Some h' \<and>
           rehash (s ! 0) h (s ! L) (int L) = Some h'"
proof -
  have nn: "\<forall>k\<le>L. 0 \<le> char_val (s ! k)"
    using assms(3,4) by simp
  have h: "calculateHash s (int L) = Some (hash_sum s L mod MOD)"
    using assms nn by (intro calculateHash_nonneg) simp_all
  have h': "calculateHash (drop 1 s) (int L) = Some (hash_sum (drop 1 s) L mod MOD)"
    using assms nn by (intro calculateHash_nonneg) simp_all
  have "rehash (s ! 0) (hash_sum s L mod MOD) (s ! L) (int L) =
           Some (hash_sum (drop 1 s) L mod MOD)"
    using assms nn by (intro rolling_step) simp_all
  with h h' show ?thesis by simp
qed

theorem rehash_matches_recomputation_witness:
  "1 \<le> (4::nat) \<and> int 4 \<le> INT_MAX \<and> length (bytes ''GATTA'') = Suc 4 \<and>
   list_all (\<lambda>c. 0 \<le> char_val c) (bytes ''GATTA'') \<and>
   (\<exists>h h'. calculateHash (bytes ''GATTA'') (int 4) = Some h \<and>
      calculateHash (drop 1 (bytes ''GATTA'')) (int 4) = Some h' \<and>
      rehash (bytes ''GATTA'' ! 0) h (bytes ''GATTA'' ! 4) (int 4) = Some h')"
proof -
  have h: "1 \<le> (4::nat)" "int 4 \<le> INT_MAX" "length (bytes ''GATTA'') = Suc 4"
    by (simp_all add: bytes_def INT_MAX_def)
  have nn: "\<forall>c\<in>set (bytes ''GATTA''). 0 \<le> char_val c"
    by code_simp
  from rehash_matches_recomputation [OF h nn] h nn show ?thesis
    unfolding list_all_iff by blast
qed

text \<open>
  C4 (as stated, refuted). For the 32-symbol buffer \<open>01 00 \<dots> 00 FD\<close> the positional sum
  is \<open>2 ^ 31 - 3 = MOD - 2\<close>, a positive number below \<open>MOD\<close>, while the code returns
  \<open>-2\<close>: the last symbol is the negative \<^verbatim>\<open>char\<close> \<open>-3\<close> and \<^verbatim>\<open>%\<close> keeps its sign.
\<close>

theorem calculateHash_differs_from_sum:
  "calculateHash [1, 0, 0, 0, 0, 0, 0, 0, 0, 0, 0, 0, 0, 0, 0, 0,
                  0, 0, 0, 0, 0, 0, 0, 0, 0, 0, 0, 0, 0, 0, 0, 253] 32 = Some (- 2) \<and>
   hash_sum [1, 0, 0, 0, 0, 0, 0, 0, 0, 0, 0, 0, 0, 0, 0, 0,
             0, 0, 0, 0, 0, 0, 0, 0, 0, 0, 0, 0, 0, 0, 0, 253] 32 mod MOD = 2147483645"
  by code_simp

text \<open>
  C4 (amended). For every buffer \<open>str\<close> and length \<open>L\<close> such that the first \<open>L\<close>
  symbols are bytes below \<open>0x80\<close>, \<open>calculateHash(str, L)\<close> equals
  \<open>(\<Sum>k<L. str[k] * 2 ^ (L - 1 - k)) mod MOD\<close>, \<open>str[k]\<close> being the raw character code.
\<close>

theorem calculateHash_is_positional_sum:
  assumes "L \<le> length str"
    and "int L \<le> INT_MAX"
    and "\<forall>k<L. 0 \<le> char_val (str ! k)"
  shows "calculateHash str (int L) =
           Some ((\<Sum>k<L. char_val (str ! k) * 2 ^ (L - 1 - k)) mod MOD)"
  using calculateHash_nonneg [OF assms] by (simp add: hash_sum_def)

theorem calculateHash_is_positional_sum_witness:
  "(3::nat) \<le> length (bytes ''ACG'') \<and> int 3 \<le> INT_MAX \<and>
   list_all (\<lambda>k. 0 \<le> char_val (bytes ''ACG'' ! k)) [0 ..< 3] \<and>
   calculateHash (bytes ''ACG'') (int 3) = Some 465 \<and>
   (\<Sum>k<3. char_val (bytes ''ACG'' ! k) * 2 ^ (3 - 1 - k)) mod MOD = 465"
proof -
  have h: "(3::nat) \<le> length (bytes ''ACG'')" "int 3 \<le> INT_MAX"
    by (simp_all add: bytes_def INT_MAX_def)
  have "\<forall>k\<in>set [0 ..< 3]. 0 \<le> char_val (bytes ''ACG'' ! k)"
    by code_simp
  then have nn: "\<forall>k<3. 0 \<le> char_val (bytes ''ACG'' ! k)"
    by simp
  have run: "calculateHash (bytes ''ACG'') (int 3) = Some 465"
    by code_simp
  from calculateHash_is_positional_sum [OF h nn] run h nn show ?thesis
    by (simp add: list_all_iff)
qed

text \<open>
  C5. Whenever \<open>patternLength > textLength\<close> (with \<open>textLength \<ge> 0\<close>), both
  \<open>bruteForceSearch\<close> and \<open>karpRabinSearch\<close> return 0: the result is \<open>Some 0\<close>, so
  no read and no arithmetic of the C program is undefined. Neither buffer is inspected.
\<close>

theorem pattern_longer_than_text:
  assumes "0 \<le> textLen"
    and "textLen < patternLen"
    and "patternLen \<le> INT_MAX"
  shows "bruteForceSearch text pattern textLen patternLen = Some 0 \<and>
         karpRabinSearch text pattern textLen patternLen = Some 0"
proof -
  have "bf_for text pattern textLen patternLen 0 0 = Some 0"
    using assms by (subst bf_for.simps) (simp add: c_int_def INT_MIN_def INT_MAX_def)
  then show ?thesis
    using assms by (simp add: bruteForceSearch_def karpRabinSearch_def)
qed

theorem pattern_longer_than_text_witness:
  "(0::int) \<le> 2 \<and> (2::int) < 3 \<and> 3 \<le> INT_MAX \<and>
   bruteForceSearch (bytes ''AC'') (bytes ''ACG'') 2 3 = Some 0 \<and>
   karpRabinSearch (bytes ''AC'') (bytes ''ACG'') 2 3 = Some 0"
proof -
  have h: "(0::int) \<le> 2" "(2::int) < 3" "3 \<le> INT_MAX"
    by (simp_all add: INT_MAX_def)
  from pattern_longer_than_text [OF h] h show ?thesis
    by blast
qed

text \<open>
  C6 (as stated, refuted). \<open>calculateHash\<close> of the one-symbol buffer \<open>FF\<close> is \<open>-1\<close>, and
  \<open>rehash\<close> with \<open>oldHash = 0\<close> in range and the incoming symbol \<open>FF\<close> is \<open>-1\<close> as well:
  neither lies in \<open>[0, MOD)\<close>.
\<close>

theorem fingerprint_negative_on_high_byte:
  "calculateHash [255] 1 = Some (- 1) \<and> rehash 0 0 255 1 = Some (- 1)"
  by code_simp

text \<open>
  C6 (amended). \<open>calculateHash(str, L)\<close> lies in \<open>[0, MOD)\<close> for every \<open>L \<ge> 0\<close> when
  the \<open>L\<close> symbols are bytes below \<open>0x80\<close>; \<open>rehash(oldChar, oldHash, newChar, L)\<close> lies
  in \<open>[0, MOD)\<close> whenever \<open>0 \<le> oldHash < MOD\<close> and \<open>newChar\<close> is a byte below \<open>0x80\<close>,
  and the value left by its modular subtraction (after \<open>MOD\<close> is added back to a
  negative difference) is never negative.
\<close>

theorem fingerprint_in_range:
  assumes "L \<le> length str"
    and "int L \<le> INT_MAX"
    and "\<forall>k<L. 0 \<le> char_val (str ! k)"
    and "INT_MIN < patternLen"
    and "patternLen \<le> INT_MAX"
    and "0 \<le> char_val newChar"
    and "0 \<le> oldHash"
    and "oldHash < MOD"
  shows "(\<exists>h. calculateHash str (int L) = Some h \<and> 0 \<le> h \<and> h < MOD) \<and>
         (\<exists>pw d h. rh_for patternLen 0 1 = Some pw \<and>
            rh_sub oldChar oldHash pw = Some d \<and> 0 \<le> d \<and>
            rehash oldChar oldHash newChar patternLen = Some h \<and> 0 \<le> h \<and> h < MOD)"
proof -
  have M: "0 < MOD" by (simp add: MOD_def INT_MAX_def)
  have "calculateHash str (int L) = Some (hash_sum str L mod MOD)"
    by (rule calculateHash_nonneg [OF assms(1-3)])
  moreover have "0 \<le> hash_sum str L mod MOD" "hash_sum str L mod MOD < MOD"
    using M by simp_all
  ultimately have "\<exists>h. calculateHash str (int L) = Some h \<and> 0 \<le> h \<and> h < MOD"
    by simp
  with rehash_range [OF assms(4-8)] show ?thesis
    by simp
qed

theorem fingerprint_in_range_witness:
  "(2::nat) \<le> length (bytes ''TG'') \<and> int 2 \<le> INT_MAX \<and>
   list_all (\<lambda>k. 0 \<le> char_val (bytes ''TG'' ! k)) [0 ..< 2] \<and>
   INT_MIN < 2 \<and> 2 \<le> INT_MAX \<and> 0 \<le> char_val 67 \<and> (0::int) \<le> 239 \<and> 239 < MOD \<and>
   (\<exists>h. calculateHash (bytes ''TG'') (int 2) = Some h \<and> 0 \<le> h \<and> h < MOD) \<and>
   (\<exists>pw d h. rh_for 2 0 1 = Some pw \<and> rh_sub 84 239 pw = Some d \<and> 0 \<le> d \<and>
      rehash 84 239 67 2 = Some h \<and> 0 \<le> h \<and> h < MOD)"
proof -
  have h1: "(2::nat) \<le> length (bytes ''TG'')" "int 2 \<le> INT_MAX"
    by (simp_all add: bytes_def INT_MAX_def)
  have "\<forall>k\<in>set [0 ..< 2]. 0 \<le> char_val (bytes ''TG'' ! k)"
    by code_simp
  then have nn: "\<forall>k<2. 0 \<le> char_val (bytes ''TG'' ! k)"
    by simp
  have h2: "INT_MIN < 2" "2 \<le> INT_MAX" "(0::int) \<le> 239" "239 < MOD"
    by (simp_all add: INT_MIN_def INT_MAX_def MOD_def)
  have c: "0 \<le> char_val 67"
    by code_simp
  have nn': "list_all (\<lambda>k. 0 \<le> char_val (bytes ''TG'' ! k)) [0 ..< 2]"
    using nn by (simp add: list_all_iff)
  from fingerprint_in_range [OF h1 nn h2(1,2) c h2(3,4), of 84] h1 nn' h2 c show ?thesis
    by blast
qed

text \<open>
  C8. When \<open>patternLength = textLength \<ge> 1\<close>, each scanner returns 1 if the text equals
  the pattern element-wise and 0 otherwise, for arbitrary bytes.
\<close>

theorem scanners_on_equal_lengths:
  assumes "length pattern = length text"
    and "1 \<le> length text"
    and "int (length text) \<le> INT_MAX"
  shows "bruteForceSearch text pattern (int (length text)) (int (length pattern)) =
           Some (if text = pattern then 1 else 0) \<and>
         karpRabinSearch text pattern (int (length text)) (int (length pattern)) =
           Some (if text = pattern then 1 else 0)"
proof -
  have P: "int (length pattern) \<le> INT_MAX"
    using assms(1,3) by simp
  have "length pattern = 0 \<longrightarrow> int (length text) < INT_MAX"
    using assms(1,2) by (cases "text") simp_all
  from bruteForceSearch_occurrences [OF assms(3) P this]
  have "bruteForceSearch text pattern (int (length text)) (int (length pattern)) =
           Some (if text = pattern then 1 else 0)"
    by (simp add: occurrences_same_length [OF assms(1)])
  with karpRabinSearch_same_length [OF assms(3) assms(1)] show ?thesis
    by simp
qed

theorem scanners_on_equal_lengths_witness:
  "length (bytes ''ACGT'') = length (bytes ''ACGT'') \<and> 1 \<le> length (bytes ''ACGT'') \<and>
   int (length (bytes ''ACGT'')) \<le> INT_MAX \<and>
   bruteForceSearch (bytes ''ACGT'') (bytes ''ACGT'') 4 4 = Some 1 \<and>
   karpRabinSearch (bytes ''ACGT'') (bytes ''ACGT'') 4 4 = Some 1"
proof -
  have h: "length (bytes ''ACGT'') = length (bytes ''ACGT'')" "1 \<le> length (bytes ''ACGT'')"
    "int (length (bytes ''ACGT'')) \<le> INT_MAX"
    by (simp_all add: bytes_def INT_MAX_def)
  have len: "int (length (bytes ''ACGT'')) = 4"
    by (simp add: bytes_def)
  from scanners_on_equal_lengths [OF h] h show ?thesis
    by (simp add: len)
qed

text \<open>
  C9. On the text \<open>AAAA\<close> and the pattern \<open>AA\<close> both scanners return 3: the pattern
  occurs, overlapping, at the offsets 0, 1 and 2.
\<close>

theorem overlapping_scenario:
  "bruteForceSearch (bytes ''AAAA'') (bytes ''AA'') 4 2 = Some 3 \<and>
   karpRabinSearch (bytes ''AAAA'') (bytes ''AA'') 4 2 = Some 3 \<and>
   filter (match_at (bytes ''AAAA'') (bytes ''AA'')) [0 ..< 3] = [0, 1, 2]"
  by code_simp

lemma bf_for_overflow:
  assumes "0 \<le> i" "i \<le> INT_MAX"
  shows "bf_for txt pattern INT_MAX 0 i m = None"
  using assms
proof (induction "nat (INT_MAX - i)" arbitrary: i m)
  case 0
  then have i_eq: "i = INT_MAX" by simp
  have lim: "c_int (INT_MAX - 0) = Some INT_MAX"
    by (simp add: c_int_def INT_MIN_def INT_MAX_def)
  have w: "bf_while txt pattern INT_MAX 0 0 = Some 0"
    by (subst bf_while.simps) simp
  have ci: "c_int (INT_MAX + 1) = None"
    by (simp add: c_int_def)
  show ?case
  proof (cases "c_int (m + 1)")
    case None
    then show ?thesis
      using i_eq lim by (subst bf_for.simps) (simp add: w)
  next
    case (Some m')
    then show ?thesis
      using i_eq lim by (subst bf_for.simps) (simp add: w ci)
  qed
next
  case (Suc n)
  then have lt: "i < INT_MAX" by simp
  have lim: "c_int (INT_MAX - 0) = Some INT_MAX"
    by (simp add: c_int_def INT_MIN_def INT_MAX_def)
  have w: "bf_while txt pattern i 0 0 = Some 0"
    by (subst bf_while.simps) simp
  have ci: "c_int (i + 1) = Some (i + 1)"
    using lt Suc.prems(1) by (simp add: c_int_def INT_MIN_def)
  have ih: "bf_for txt pattern INT_MAX 0 (i + 1) m' = None" for m'
    using Suc.hyps(2) Suc.prems lt by (intro Suc.hyps(1)) simp_all
  show ?case
  proof (cases "c_int (m + 1)")
    case None
    then show ?thesis
      using lt lim by (subst bf_for.simps) (simp add: w)
  next
    case (Some m')
    then show ?thesis
      using lt lim by (subst bf_for.simps) (simp add: w ci ih)
  qed
qed

text \<open>
  C10 (as stated, refuted). The claim speaks of every text length \<open>T \<ge> 0\<close>. For a text
  of length \<open>T = INT_MAX\<close> and \<open>patternLength = 0\<close> the loop test \<open>i <= textLen\<close> never
  fails, and \<^verbatim>\<open>matches++\<close> and \<^verbatim>\<open>i++\<close> overflow: the call has undefined behaviour and
  cannot return \<open>T + 1\<close>, which is no value of \<^verbatim>\<open>int\<close>.
\<close>

theorem empty_pattern_overflows_at_int_max:
  "int (length (replicate 2147483647 (0::cchar))) = 2147483647 \<and>
   bruteForceSearch (replicate 2147483647 0) [] 2147483647 0 = None"
proof -
  have "bf_for (replicate 2147483647 0) [] INT_MAX 0 0 0 = None"
    by (rule bf_for_overflow) (simp_all add: INT_MAX_def)
  then have "bruteForceSearch (replicate 2147483647 0) [] 2147483647 0 = None"
    unfolding bruteForceSearch_def INT_MAX_def .
  moreover have "int (length (replicate 2147483647 (0::cchar))) = 2147483647"
    by (simp only: length_replicate of_nat_numeral)
  ultimately show ?thesis by (rule conjI [rotated])
qed

text \<open>
  C10 (amended). With \<open>patternLength = 0\<close>, outside the precondition \<open>P \<ge> 1\<close>,
  \<open>bruteForceSearch\<close> returns \<open>T + 1\<close> for every text of length \<open>0 \<le> T < INT_MAX\<close>;
  the pattern buffer is never read. The two scanners differ on such inputs: on the text
  \<open>A\<close> the exact scanner returns 2 and the hashed scanner 1, so they agree only under
  the precondition \<open>P \<ge> 1\<close>.
\<close>

theorem empty_pattern_counts_every_offset:
  assumes "int (length text) < INT_MAX"
  shows "bruteForceSearch text pattern (int (length text)) 0 = Some (int (length text) + 1) \<and>
         bruteForceSearch (bytes ''A'') [] 1 0 = Some 2 \<and>
         karpRabinSearch (bytes ''A'') [] 1 0 = Some 1"
proof -
  have "bruteForceSearch text pattern (int (length text)) 0 = Some (int (length text) + 1)"
    using bf_for_empty_pattern [OF assms, of 0 0 pattern] by (simp add: bruteForceSearch_def)
  moreover have "bruteForceSearch (bytes ''A'') [] 1 0 = Some 2 \<and>
         karpRabinSearch (bytes ''A'') [] 1 0 = Some 1"
    by code_simp
  ultimately show ?thesis by simp
qed

theorem empty_pattern_counts_every_offset_witness:
  "int (length (bytes ''ACGT'')) < INT_MAX \<and>
   bruteForceSearch (bytes ''ACGT'') (bytes ''TT'') 4 0 = Some 5"
proof -
  have h: "int (length (bytes ''ACGT'')) < INT_MAX"
    by (simp add: bytes_def INT_MAX_def)
  have len: "int (length (bytes ''ACGT'')) = 4"
    by (simp add: bytes_def)
  from empty_pattern_counts_every_offset [OF h, of "bytes ''TT''"] h show ?thesis
    by (simp add: len)
qed

section \<open>The modulus\<close>

text \<open>
  \<open>MOD\<close> is \<open>2 ^ 31 - 1\<close>. A prime factor \<open>q\<close> of \<open>2 ^ 31 - 1\<close> is odd and the order of
  2 modulo \<open>q\<close> is 31, so \<open>q\<close> is congruent to 1 modulo 62; trial division by these
  candidates up to the square root finds no factor.
\<close>

lemma no_factor_from_63: "no_factor_from 2147483647 63"
  by code_simp

lemma no_factor_from_sound:
  assumes "no_factor_from n d" "0 < d"
    and "(d + 62 * int k) * (d + 62 * int k) \<le> n"
  shows "\<not> (d + 62 * int k) dvd n"
  using assms
proof (induction k arbitrary: d)
  case 0
  then have "\<not> n < d * d" by simp
  with 0 have "n mod d \<noteq> 0"
    by (subst (asm) no_factor_from.simps) (simp split: if_splits)
  then show ?case by (simp add: dvd_eq_mod_eq_0)
next
  case (Suc k)
  have "d * d \<le> (d + 62 * int (Suc k)) * (d + 62 * int (Suc k))"
    using Suc.prems(2) by (intro mult_mono) simp_all
  then have "\<not> n < d * d" using Suc.prems(3) by simp
  with Suc.prems(1,2) have nf: "no_factor_from n (d + 62)"
    by (subst (asm) no_factor_from.simps) (simp split: if_splits)
  have "(d + 62 + 62 * int k) * (d + 62 + 62 * int k) \<le> n"
    using Suc.prems(3) by (simp add: algebra_simps)
  from Suc.IH [OF nf _ this] Suc.prems(2) show ?case
    by (simp add: algebra_simps)
qed

lemma prime_factor_exists:
  assumes "1 < n"
  shows "\<exists>p. is_prime p \<and> p dvd n"
  using assms
proof (induction n rule: less_induct)
  case (less n)
  show ?case
  proof (cases "is_prime n")
    case True
    then show ?thesis by auto
  next
    case False
    then obtain d where d: "d dvd n" "d \<noteq> 1" "d \<noteq> n"
      using less.prems by (auto simp: is_prime_def)
    have "d \<noteq> 0" using d(1) less.prems by (cases "d = 0") simp_all
    then have "1 < d" using d(2) by simp
    moreover have "d < n"
      using d less.prems by (metis dvd_imp_le le_neq_implies_less less_trans zero_less_one)
    ultimately obtain p where "is_prime p" "p dvd d"
      using less.IH by blast
    then show ?thesis using d(1) by (meson dvd_trans)
  qed
qed

lemma small_prime_factor:
  assumes "1 < n" "\<not> is_prime n"
  shows "\<exists>q. is_prime q \<and> q dvd n \<and> q * q \<le> n"
proof -
  obtain d where d: "d dvd n" "d \<noteq> 1" "d \<noteq> n"
    using assms by (auto simp: is_prime_def)
  then obtain e where e: "n = d * e" by (auto simp: dvd_def)
  have d0: "d \<noteq> 0" using e assms(1) by (cases "d = 0") simp_all
  have e0: "e \<noteq> 0" using e assms(1) by (cases "e = 0") simp_all
  have d1: "1 < d" using d0 d(2) by simp
  have e1: "1 < e" using e d(3) e0 by (cases "e = 1") auto
  define a where "a = min d e"
  have a1: "1 < a" using d1 e1 by (simp add: a_def)
  have "a * a \<le> d * e"
    by (intro mult_mono) (simp_all add: a_def)
  then have aa: "a * a \<le> n" using e by simp
  have an: "a dvd n" using e by (auto simp: a_def min_def)
  obtain q where q: "is_prime q" "q dvd a"
    using prime_factor_exists [OF a1] by blast
  have "q \<le> a" using q(2) a1 by (intro dvd_imp_le) simp_all
  then have "q * q \<le> a * a" by (intro mult_mono) simp_all
  then show ?thesis using q an aa by (meson dvd_trans le_trans)
qed

lemma mod_mult_plus_one:
  assumes "1 < (p::nat)" "a = p * m + 1"
  shows "a mod p = 1"
proof -
  have "(1 + p * m) mod p = 1 mod p" by (rule mod_mult_self2)
  then show ?thesis using assms by (simp add: add.commute)
qed

lemma prime_coprime_below:
  assumes "is_prime p" "0 < k" "k < p"
  shows "coprime p k"
proof -
  have "gcd p k dvd p" by simp
  then have "gcd p k = 1 \<or> gcd p k = p"
    using assms(1) by (simp add: is_prime_def)
  moreover have "gcd p k \<noteq> p"
  proof
    assume "gcd p k = p"
    then have "p dvd k" by (metis gcd_dvd2)
    then have "p \<le> k" using assms(2) by (intro dvd_imp_le) simp_all
    then show False using assms(3) by simp
  qed
  ultimately show ?thesis by (simp add: coprime_iff_gcd_eq_1)
qed

lemma prime_dvd_choose:
  assumes "is_prime p" "0 < k" "k < p"
  shows "p dvd (p choose k)"
proof -
  obtain k' where k': "k = Suc k'" using assms(2) by (cases k) simp_all
  obtain p' where p': "p = Suc p'" using assms(3) by (cases p) simp_all
  have "k * (p choose k) = p * (p' choose k')"
    unfolding k' p' by (rule Suc_times_binomial)
  then have "p dvd k * (p choose k)" by simp
  moreover have "coprime p k" by (rule prime_coprime_below [OF assms])
  ultimately show ?thesis by (simp add: coprime_dvd_mult_right_iff)
qed

lemma two_power_prime:
  assumes "is_prime p"
  shows "p dvd 2 ^ p - 2"
proof -
  have p1: "1 < p" using assms by (simp add: is_prime_def)
  have "{..p} = insert 0 (insert p {0<..<p})"
    using p1 by auto
  then have "(\<Sum>k\<le>p. p choose k) = (p choose 0) + ((p choose p) + (\<Sum>k\<in>{0<..<p}. p choose k))"
    using p1 by simp
  then have "(2::nat) ^ p = 2 + (\<Sum>k\<in>{0<..<p}. p choose k)"
    by (simp add: choose_row_sum)
  moreover have "p dvd (\<Sum>k\<in>{0<..<p}. p choose k)"
    using assms by (intro dvd_sum prime_dvd_choose) simp_all
  ultimately show ?thesis by simp
qed

lemma fermat_two:
  assumes "is_prime p" "odd p"
  shows "2 ^ (p - 1) mod p = 1"
proof -
  have p1: "1 < p" using assms by (simp add: is_prime_def)
  then obtain n where n: "p = Suc n" by (cases p) simp_all
  have "(2::nat) ^ p - 2 = 2 * (2 ^ (p - 1) - 1)"
    unfolding n by (simp add: algebra_simps)
  then have "p dvd 2 * (2 ^ (p - 1) - 1)"
    using two_power_prime [OF assms(1)] by simp
  moreover have "coprime p 2"
    using assms(2) by simp
  ultimately have "p dvd 2 ^ (p - 1) - 1"
    by (simp add: coprime_dvd_mult_right_iff)
  then obtain m where m: "2 ^ (p - 1) - 1 = p * m" by (auto simp: dvd_def)
  have "(1::nat) \<le> 2 ^ (p - 1)" by simp
  then have "2 ^ (p - 1) = p * m + 1" using m by linarith
  then show ?thesis using p1 by (intro mod_mult_plus_one)
qed

lemma prime_31: "is_prime 31"
proof -
  have "d = 1 \<or> d = 31" if "d dvd 31" for d :: nat
  proof -
    have "d \<le> 31" using that by (intro dvd_imp_le) simp_all
    then have "d \<in> set [0 ..< 32]" by simp
    moreover have "\<forall>d\<in>set [0 ..< 32]. d dvd (31::nat) \<longrightarrow> d = 1 \<or> d = 31"
      by code_simp
    ultimately show ?thesis using that by blast
  qed
  then show ?thesis by (simp add: is_prime_def)
qed

lemma mersenne_factor:
  assumes "is_prime q" "q dvd 2 ^ 31 - 1"
  shows "q mod 62 = 1"
proof -
  have q1: "1 < q" using assms(1) by (simp add: is_prime_def)
  have "odd ((2::nat) ^ 31 - 1)" by simp
  then have oddq: "odd q" using assms(2) by (meson dvd_trans)
  have q2: "2 < q" using q1 oddq by (cases "q = 2") auto
  obtain m where m: "(2::nat) ^ 31 - 1 = q * m" using assms(2) by (auto simp: dvd_def)
  have "(1::nat) \<le> 2 ^ 31" by simp
  then have "(2::nat) ^ 31 = q * m + 1" using m by linarith
  then have A: "(2::nat) ^ 31 mod q = 1" using q1 by (intro mod_mult_plus_one)
  have B: "(2::nat) ^ (q - 1) mod q = 1" by (rule fermat_two [OF assms(1) oddq])
  have d31: "31 dvd q - 1"
  proof (rule ccontr)
    assume n31: "\<not> 31 dvd q - 1"
    have "gcd 31 (q - 1) dvd 31" by simp
    then have "gcd 31 (q - 1) = 1 \<or> gcd 31 (q - 1) = 31"
      using prime_31 by (simp add: is_prime_def)
    moreover have "gcd 31 (q - 1) \<noteq> 31"
      using n31 by (metis gcd_dvd2)
    ultimately have g: "gcd 31 (q - 1) = 1" by simp
    obtain x y where xy: "31 * x = (q - 1) * y + gcd 31 (q - 1)"
      using bezout_nat [of 31 "q - 1"] by auto
    have "(2::nat) ^ (31 * x) mod q = ((2 ^ 31) mod q) ^ x mod q"
      by (simp add: power_mult power_mod)
    then have L: "(2::nat) ^ (31 * x) mod q = 1" using A q1 by simp
    have "(2::nat) ^ ((q - 1) * y + 1) = (2 ^ (q - 1)) ^ y * 2"
      by (simp add: power_add power_mult)
    then have "(2::nat) ^ ((q - 1) * y + 1) mod q = ((2 ^ (q - 1)) ^ y mod q * 2) mod q"
      by (simp only: mod_mult_left_eq)
    also have "(2 ^ (q - 1)) ^ y mod q = ((2::nat) ^ (q - 1) mod q) ^ y mod q"
      by (simp only: power_mod)
    finally have R: "(2::nat) ^ ((q - 1) * y + 1) mod q = 2" using B q2 by simp
    from L R xy g show False by simp
  qed
  have "2 dvd q - 1" using oddq q1 by simp
  moreover have "coprime (2::nat) 31" by simp
  ultimately have "2 * 31 dvd q - 1" using d31 by (intro divides_mult) simp_all
  then obtain k where "q - 1 = 62 * k" by (auto simp: dvd_def)
  then have "q = 62 * k + 1" using q1 by linarith
  then show ?thesis by simp
qed

lemma mersenne_31_prime: "is_prime 2147483647"
proof (rule ccontr)
  assume np: "\<not> is_prime 2147483647"
  have n: "(2147483647::nat) = 2 ^ 31 - 1" by simp
  obtain q where q: "is_prime q" "q dvd 2147483647" "q * q \<le> 2147483647"
    using small_prime_factor [OF _ np] by auto
  have q1: "1 < q" using q(1) by (simp add: is_prime_def)
  have qm: "q mod 62 = 1"
    using q(2) unfolding n by (rule mersenne_factor [OF q(1)])
  have "q = 62 * (q div 62) + q mod 62" by simp
  then have qd: "q = 62 * (q div 62) + 1" using qm by simp
  have "q div 62 \<noteq> 0" using qd q1 by (cases "q div 62 = 0") simp_all
  then obtain k where k: "q div 62 = Suc k" by (cases "q div 62") simp_all
  have qk: "int q = 63 + 62 * int k"
    using qd unfolding k by simp
  have "int (q * q) \<le> int 2147483647"
    using q(3) by (simp only: of_nat_le_iff)
  then have "(63 + 62 * int k) * (63 + 62 * int k) \<le> 2147483647"
    by (simp add: qk)
  from no_factor_from_sound [OF no_factor_from_63 _ this]
  have "\<not> int q dvd int 2147483647"
    by (simp add: qk)
  then show False
    using q(2) by (simp only: of_nat_dvd_iff simp_thms)
qed

text \<open>
  C7 (as stated, refuted). The claim says that the modulus is not a prime number.
  \<open>MOD = INT_MAX = 2147483647\<close> is the Mersenne prime \<open>2 ^ 31 - 1\<close>.
\<close>

theorem modulus_is_prime: "is_prime (nat MOD)"
  using mersenne_31_prime by (simp add: MOD_def INT_MAX_def)

text \<open>
  C7 (amended). The modulus \<open>MOD\<close> used by \<open>calculateHash\<close> and \<open>rehash\<close> is
  \<open>2 ^ 31 - 1\<close>, the maximum value of the 32-bit signed integer type \<^verbatim>\<open>int\<close>, and it
  is a prime number.
\<close>

theorem modulus_is_int_max_and_prime:
  "MOD = 2 ^ 31 - 1 \<and> (\<forall>w :: 32 word. sint w \<le> MOD) \<and> sint (2147483647 :: 32 word) = MOD \<and>
   is_prime (nat MOD)"
proof -
  have "sint w \<le> MOD" for w :: "32 word"
    using sint_lt [of w] by (simp add: MOD_def INT_MAX_def)
  moreover have "is_prime (nat MOD)"
    using mersenne_31_prime by (simp add: MOD_def INT_MAX_def)
  ultimately show ?thesis
    by (simp add: MOD_def INT_MAX_def)
qed

theorem modulus_is_int_max_and_prime_witness:
  "(2147483647::nat) dvd nat MOD \<and> ((2147483647::nat) = 1 \<or> 2147483647 = nat MOD) \<and>
   \<not> (46337::nat) dvd nat MOD"
proof -
  have p: "is_prime (nat MOD)"
    using modulus_is_int_max_and_prime by blast
  have m: "nat MOD = 2147483647"
    by (simp add: MOD_def INT_MAX_def)
  have "\<not> (46337::nat) dvd nat MOD"
  proof
    assume "(46337::nat) dvd nat MOD"
    with p have "(46337::nat) = 1 \<or> 46337 = nat MOD"
      unfolding is_prime_def by blast
    then show False by (simp add: m)
  qed
  then show ?thesis by (simp add: m)
qed

end
